theory Spec2Isabelle
  imports Main "HOL-Library.Word" "HOL-Library.Sublist"
begin

section \<open>Strings and filename sanitization (content.js)\<close>

text \<open>
  A JavaScript string is a sequence of UTF-16 code units. The regular expressions of
  \<^verbatim>\<open>sanitizeFilename\<close> have no \<^verbatim>\<open>u\<close> flag, so they work on code units, and
  \<^verbatim>\<open>substring\<close> counts code units as well.
\<close>

type_synonym code_unit = "16 word"
type_synonym js_string = "code_unit list"

definition of_ascii :: "string \<Rightarrow> js_string" where
  "of_ascii s = map of_char s"

definition is_letter :: "code_unit \<Rightarrow> bool" where
  "is_letter c \<longleftrightarrow> (0x41 \<le> c \<and> c \<le> 0x5A) \<or> (0x61 \<le> c \<and> c \<le> 0x7A)"

definition is_digit :: "code_unit \<Rightarrow> bool" where
  "is_digit c \<longleftrightarrow> 0x30 \<le> c \<and> c \<le> 0x39"

definition hyphen :: code_unit where
  "hyphen = 0x2D"

definition underscore :: code_unit where
  "underscore = 0x5F"

text \<open>
  The class \<^verbatim>\<open>\s\<close> of ECMAScript: TAB, LF, VT, FF, CR, SPACE, NBSP, the Unicode
  space separators, LS, PS and the byte order mark.
\<close>

definition is_space :: "code_unit \<Rightarrow> bool" where
  "is_space c \<longleftrightarrow>
     (0x0009 \<le> c \<and> c \<le> 0x000D) \<or> c = 0x0020 \<or> c = 0x00A0 \<or> c = 0x1680 \<or>
     (0x2000 \<le> c \<and> c \<le> 0x200A) \<or> c = 0x2028 \<or> c = 0x2029 \<or> c = 0x202F \<or>
     c = 0x205F \<or> c = 0x3000 \<or> c = 0xFEFF"

text \<open>
  \<^verbatim>\<open>/[^a-z0-9\s\-_]/gi\<close>: a code unit survives the first \<^verbatim>\<open>replace\<close> when the
  class inside the negation matches it. Without the \<^verbatim>\<open>u\<close> flag the case-insensitive
  comparison never maps a code unit above 127 to an ASCII letter, so the letters are
  exactly A-Z and a-z.
\<close>

definition kept :: "code_unit \<Rightarrow> bool" where
  "kept c \<longleftrightarrow> is_letter c \<or> is_digit c \<or> is_space c \<or> c = hyphen \<or> c = underscore"

text \<open>\<^verbatim>\<open>.replace(/\s+/g, '_')\<close>: every maximal run of whitespace becomes one underscore.\<close>

function replace_spaces :: "js_string \<Rightarrow> js_string" where
  "replace_spaces [] = []"
| "replace_spaces (c # cs) =
     (if is_space c then underscore # replace_spaces (dropWhile is_space cs)
      else c # replace_spaces cs)"
  by pat_completeness auto
termination
  by (relation "measure length") (auto simp: less_Suc_eq_le length_dropWhile_le)

definition sanitizeFilename :: "js_string \<Rightarrow> js_string" where
  "sanitizeFilename name = take 50 (replace_spaces (filter kept name))"

section \<open>Messages and session state of the Orchestrator (content.js)\<close>

text \<open>
  Type tags, request identifiers, URLs and error messages are plain strings. A field that
  a message does not carry is the falsy value of its type (the empty string, \<open>False\<close>,
  \<open>None\<close>): the listeners only test such fields for truthiness.
\<close>

record payload =
  data :: string
  width :: nat
  height :: nat

record frame_info =
  hasImage :: bool
  url :: string

datatype jsobj = Image payload | Info frame_info

record message =
  msg_type :: string
  msg_requestId :: string
  msg_success :: bool
  msg_data :: "jsobj option"
  msg_error :: string
  msg_hasImage :: bool
  msg_url :: string

definition empty_message :: message where
  "empty_message = \<lparr>msg_type = [], msg_requestId = [], msg_success = False, msg_data = None,
     msg_error = [], msg_hasImage = False, msg_url = []\<rparr>"

record captured_page =
  content :: jsobj
  timestamp :: nat
  pageNumber :: int

text \<open>
  A promise is pending until the first call of its \<^verbatim>\<open>resolve\<close> or \<^verbatim>\<open>reject\<close>;
  later calls are ignored by the language. A probe resolves with the object it is given, a
  capture with the object stamped by the Orchestrator.
\<close>

datatype settled = Plain "jsobj option" | Stamped captured_page

datatype promise = Pending | Fulfilled settled | Rejected string

text \<open>
  An entry of \<^verbatim>\<open>state.pendingCaptures\<close> holds the two continuations made by
  \<^verbatim>\<open>pingIframe\<close> or by \<^verbatim>\<open>captureCurrentPage\<close>; they close over the promise of
  that call (a number here) and, for a capture, over the request identifier. The timer
  callbacks close over the request identifier; a timer is kept under the number of the
  promise it belongs to, and its second component is the time at which it is due.
\<close>

datatype entry = Ping_entry nat | Capture_entry string nat

datatype timer = Ping_timer string nat | Capture_timer string nat

fun due :: "timer \<Rightarrow> nat" where
  "due (Ping_timer requestId t) = t"
| "due (Capture_timer requestId t) = t"

datatype status_kind = Info_status | Success_status | Error_status

datatype status_message =
    Checking_connection
  | Error_message string
  | Starting_from int
  | Captured_page int nat
  | Done_captured nat
  | Error_on_page int string
  | Cleared_all_pages
  | No_pages_captured
  | Download_started nat
  | PDF_error string

text \<open>
  A call of \<^verbatim>\<open>startCapture\<close> that is suspended at one of its \<^verbatim>\<open>await\<close>s, or has
  returned: its local variables \<^verbatim>\<open>pageLimit\<close>, \<^verbatim>\<open>pageNum\<close> and \<^verbatim>\<open>captured\<close>, and the
  place where it waits. \<open>Awaits_goToNextPage\<close> is the \<^verbatim>\<open>sleep(1500)\<close> inside
  \<^verbatim>\<open>goToNextPage\<close>, after the click.
\<close>

datatype suspension =
    Awaits_pingIframe
  | Awaits_sleep
  | Awaits_captureCurrentPage
  | Awaits_goToNextPage
  | Returned

record activation =
  run_pageLimit :: int
  run_pageNum :: int
  run_captured :: nat
  run_at :: suspension

text \<open>
  The first four fields are those of the script's \<^verbatim>\<open>state\<close> object that the core
  uses. The others hold what the script keeps elsewhere: the promises of the calls, the
  \<^verbatim>\<open>resolved\<close> flag in the closure of each capture call, the armed timers, the next
  fresh promise number, the log of broadcasts, the status line (message and kind) that
  \<^verbatim>\<open>updateStatus\<close> writes into the modal, and the calls of \<^verbatim>\<open>startCapture\<close> that the
  action button has made and that wait at an \<^verbatim>\<open>await\<close> while something else runs.
\<close>

record state =
  capturedPages :: "captured_page list"
  isRunning :: bool
  readyFrames :: "frame_info list"
  pendingCaptures :: "string \<rightharpoonup> entry"
  promises :: "nat \<Rightarrow> promise"
  resolved :: "nat \<Rightarrow> bool"
  timers :: "nat \<rightharpoonup> timer"
  next_promise :: nat
  sent :: "message list"
  status :: "(status_message \<times> status_kind) option"
  activations :: "activation list"

definition initial_state :: state where
  "initial_state = \<lparr>capturedPages = [], isRunning = False, readyFrames = [],
     pendingCaptures = Map.empty, promises = (\<lambda>p. Pending), resolved = (\<lambda>p. False),
     timers = Map.empty, next_promise = 0, sent = [], status = None, activations = []\<rparr>"

text \<open>
  What the Orchestrator reads from its surroundings: \<^verbatim>\<open>Date.now()\<close>, the result of
  \<^verbatim>\<open>parseInt\<close> on the page input (\<open>None\<close> when the input is missing or the result
  is NaN) and the total parsed from the toolbar text.
\<close>

record host =
  now :: nat
  page_input :: "int option"
  page_total :: "int option"

record page_info =
  current :: int
  total :: "int option"

definition getCurrentPageInfo :: "host \<Rightarrow> page_info" where
  "getCurrentPageInfo h =
     \<lparr>current = (case page_input h of None \<Rightarrow> 1 | Some n \<Rightarrow> if n = 0 then 1 else n),
      total = page_total h\<rparr>"

text \<open>The decimal digits of a number, as string concatenation writes them.\<close>

definition digit :: "nat \<Rightarrow> char" where
  "digit d = char_of (of_char CHR ''0'' + d)"

function string_of_nat :: "nat \<Rightarrow> string" where
  "string_of_nat n =
     (if n < 10 then [digit n] else string_of_nat (n div 10) @ [digit (n mod 10)])"
  by pat_completeness auto
termination
  by (relation "measure id") auto

declare string_of_nat.simps [simp del]

text \<open>The request identifiers: \<^verbatim>\<open>'ping_' + Date.now()\<close> and \<^verbatim>\<open>'capture_' + Date.now()\<close>.\<close>

definition ping_id :: "nat \<Rightarrow> string" where
  "ping_id t = ''ping_'' @ string_of_nat t"

definition capture_id :: "nat \<Rightarrow> string" where
  "capture_id t = ''capture_'' @ string_of_nat t"

text \<open>\<^verbatim>\<open>broadcastToIframes\<close> posts the message to every frame it reaches; the log
  \<open>sent\<close> records each broadcast.\<close>

definition broadcastToIframes :: "message \<Rightarrow> state \<Rightarrow> state" where
  "broadcastToIframes m s = s\<lparr>sent := sent s @ [m]\<rparr>"

definition settle :: "nat \<Rightarrow> promise \<Rightarrow> state \<Rightarrow> state" where
  "settle p v s = (if promises s p = Pending then s\<lparr>promises := (promises s)(p := v)\<rparr> else s)"

definition clearTimeout :: "nat \<Rightarrow> state \<Rightarrow> state" where
  "clearTimeout p s = s\<lparr>timers := (timers s)(p := None)\<rparr>"

definition delete_pending :: "string \<Rightarrow> state \<Rightarrow> state" where
  "delete_pending requestId s = s\<lparr>pendingCaptures := (pendingCaptures s)(requestId := None)\<rparr>"

text \<open>
  The \<^verbatim>\<open>resolve\<close> continuation of an entry. In \<^verbatim>\<open>captureCurrentPage\<close> the
  assignment \<^verbatim>\<open>data.timestamp = ...\<close> throws when \<^verbatim>\<open>data\<close> is not an object
  (\<open>None\<close>): the flag is set, the timer cleared and the entry deleted by then, and the
  promise is left pending.
\<close>

fun entry_resolve :: "host \<Rightarrow> entry \<Rightarrow> jsobj option \<Rightarrow> state \<Rightarrow> state" where
  "entry_resolve h (Ping_entry p) info s = settle p (Fulfilled (Plain info)) (clearTimeout p s)"
| "entry_resolve h (Capture_entry requestId p) d s =
     (if resolved s p then s
      else
        let s1 = s\<lparr>resolved := (resolved s)(p := True)\<rparr>;
            s2 = clearTimeout p s1;
            s3 = delete_pending requestId s2
        in (case d of
              None \<Rightarrow> s3
            | Some obj \<Rightarrow>
                settle p (Fulfilled (Stamped \<lparr>content = obj, timestamp = now h,
                  pageNumber = current (getCurrentPageInfo h)\<rparr>)) s3))"

fun entry_reject :: "entry \<Rightarrow> string \<Rightarrow> state \<Rightarrow> state" where
  "entry_reject (Ping_entry p) err s = settle p (Rejected err) s"
| "entry_reject (Capture_entry requestId p) err s =
     (if resolved s p then s
      else
        let s1 = s\<lparr>resolved := (resolved s)(p := True)\<rparr>;
            s2 = clearTimeout p s1;
            s3 = delete_pending requestId s2
        in settle p (Rejected err) s3)"

text \<open>The \<^verbatim>\<open>message\<close> listener of content.js: three conditionals in sequence.\<close>

definition on_message :: "host \<Rightarrow> message \<Rightarrow> state \<Rightarrow> state" where
  "on_message h m s =
     (let type = msg_type m; requestId = msg_requestId m in
      if type = [] \<or> \<not> prefix ''VS_'' type then s
      else
        let s1 =
              (if type = ''VS_PAGE_CAPTURED'' \<and> requestId \<noteq> [] then
                 (case pendingCaptures s requestId of
                    Some e \<Rightarrow>
                      let s' = delete_pending requestId s in
                      if msg_success m then entry_resolve h e (msg_data m) s'
                      else entry_reject e
                             (if msg_error m = [] then ''Capture failed'' else msg_error m) s'
                  | None \<Rightarrow> s)
               else s);
            s2 =
              (if type = ''VS_PONG'' \<and> requestId \<noteq> [] \<and> msg_hasImage m then
                 (case pendingCaptures s1 requestId of
                    Some e \<Rightarrow>
                      entry_resolve h e
                        (Some (Info \<lparr>hasImage = msg_hasImage m, url = msg_url m\<rparr>))
                        (delete_pending requestId s1)
                  | None \<Rightarrow> s1)
               else s1)
        in if type = ''VS_IFRAME_READY''
           then s2\<lparr>readyFrames := readyFrames s2 @ [\<lparr>hasImage = msg_hasImage m, url = msg_url m\<rparr>]\<rparr>
           else s2)"

definition probe_failure :: string where
  "probe_failure = ''No iframe with page image found. Try reloading.''"

text \<open>
  \<^verbatim>\<open>pingIframe\<close>. The promise returned by the call is the first component. With an
  image-bearing announcement on record the call returns it at once; otherwise it arms a
  5000 ms timer, registers the entry and broadcasts the ping.
\<close>

definition pingIframe :: "host \<Rightarrow> state \<Rightarrow> nat \<times> state" where
  "pingIframe h s =
     (let p = next_promise s in
      case find hasImage (readyFrames s) of
        Some readyWithImage \<Rightarrow>
          (p, s\<lparr>promises := (promises s)(p := Fulfilled (Plain (Some (Info readyWithImage)))),
                next_promise := Suc p\<rparr>)
      | None \<Rightarrow>
          let requestId = ping_id (now h);
              s1 = s\<lparr>promises := (promises s)(p := Pending), next_promise := Suc p\<rparr>;
              s2 = s1\<lparr>timers := (timers s1)(p \<mapsto> Ping_timer requestId (now h + 5000))\<rparr>;
              s3 = s2\<lparr>pendingCaptures := (pendingCaptures s2)(requestId \<mapsto> Ping_entry p)\<rparr>
          in (p, broadcastToIframes
                   (empty_message\<lparr>msg_type := ''VS_PING'', msg_requestId := requestId\<rparr>) s3))"

text \<open>\<^verbatim>\<open>captureCurrentPage\<close>: a 15000 ms timer, the entry, the broadcast.\<close>

definition captureCurrentPage :: "host \<Rightarrow> state \<Rightarrow> nat \<times> state" where
  "captureCurrentPage h s =
     (let requestId = capture_id (now h);
          p = next_promise s;
          s1 = s\<lparr>promises := (promises s)(p := Pending), resolved := (resolved s)(p := False),
                 next_promise := Suc p\<rparr>;
          s2 = s1\<lparr>timers := (timers s1)(p \<mapsto> Capture_timer requestId (now h + 15000))\<rparr>;
          s3 = s2\<lparr>pendingCaptures := (pendingCaptures s2)(requestId \<mapsto> Capture_entry requestId p)\<rparr>
      in (p, broadcastToIframes
               (empty_message\<lparr>msg_type := ''VS_CAPTURE_PAGE'', msg_requestId := requestId\<rparr>) s3))"

text \<open>
  The runtime runs the callback of timer \<open>p\<close> at time \<open>t\<close>: nothing happens when the timer
  was cleared or has fired already, or is not yet due.
\<close>

definition on_timeout :: "nat \<Rightarrow> nat \<Rightarrow> state \<Rightarrow> state" where
  "on_timeout p t s =
     (case timers s p of
        None \<Rightarrow> s
      | Some tm \<Rightarrow>
          if t < due tm then s
          else
            let s1 = s\<lparr>timers := (timers s)(p := None)\<rparr> in
            (case tm of
               Ping_timer requestId d \<Rightarrow>
                 let s2 = delete_pending requestId s1 in
                 (case find hasImage (readyFrames s2) of
                    Some ready \<Rightarrow> settle p (Fulfilled (Plain (Some (Info ready)))) s2
                  | None \<Rightarrow> settle p (Rejected probe_failure) s2)
             | Capture_timer requestId d \<Rightarrow>
                 if resolved s1 p then s1
                 else settle p (Rejected ''Capture timeout'') (delete_pending requestId s1)))"

datatype event = Message host message | Timeout nat nat

fun step :: "event \<Rightarrow> state \<Rightarrow> state" where
  "step (Message h m) s = on_message h m s"
| "step (Timeout p t) s = on_timeout p t s"

definition run :: "event list \<Rightarrow> state \<Rightarrow> state" where
  "run es s = fold step es s"

text \<open>
  A request \<open>requestId\<close> with promise \<open>p\<close> is registered in a state when its entry is in
  \<^verbatim>\<open>state.pendingCaptures\<close>, its timer is armed and its promise is pending: the state
  of affairs that \<^verbatim>\<open>pingIframe\<close> and \<^verbatim>\<open>captureCurrentPage\<close> set up.
\<close>

definition ping_registered :: "string \<Rightarrow> nat \<Rightarrow> state \<Rightarrow> bool" where
  "ping_registered requestId p s \<longleftrightarrow>
     promises s p = Pending \<and> pendingCaptures s requestId = Some (Ping_entry p) \<and>
     (case timers s p of Some (Ping_timer r d) \<Rightarrow> r = requestId | _ \<Rightarrow> False)"

definition capture_registered :: "string \<Rightarrow> nat \<Rightarrow> state \<Rightarrow> bool" where
  "capture_registered requestId p s \<longleftrightarrow>
     promises s p = Pending \<and> \<not> resolved s p \<and>
     pendingCaptures s requestId = Some (Capture_entry requestId p) \<and>
     (case timers s p of Some (Capture_timer r d) \<Rightarrow> r = requestId | _ \<Rightarrow> False)"

definition registered :: "string \<Rightarrow> nat \<Rightarrow> state \<Rightarrow> bool" where
  "registered requestId p s \<longleftrightarrow> ping_registered requestId p s \<or> capture_registered requestId p s"

text \<open>
  The events that concern a request: a matching response, that is a message carrying its
  identifier of type \<^verbatim>\<open>VS_PAGE_CAPTURED\<close>, or of type \<^verbatim>\<open>VS_PONG\<close> with
  \<open>hasImage\<close> true; and the firing of its timer.
\<close>

fun concerns :: "string \<Rightarrow> nat \<Rightarrow> event \<Rightarrow> bool" where
  "concerns requestId p (Message h m) \<longleftrightarrow>
     msg_requestId m = requestId \<and>
     (msg_type m = ''VS_PAGE_CAPTURED'' \<or> (msg_type m = ''VS_PONG'' \<and> msg_hasImage m))"
| "concerns requestId p (Timeout q t) \<longleftrightarrow> q = p"

text \<open>
  After its entry is gone a request is closed: its promise is settled, or its timer is gone
  as well (the one case where the promise stays pending is the exception described at
  \<open>entry_resolve\<close>).
\<close>

definition closed :: "string \<Rightarrow> nat \<Rightarrow> state \<Rightarrow> bool" where
  "closed requestId p s \<longleftrightarrow>
     pendingCaptures s requestId = None \<and> (promises s p \<noteq> Pending \<or> timers s p = None)"

fun promise_of :: "entry \<Rightarrow> nat" where
  "promise_of (Ping_entry p) = p"
| "promise_of (Capture_entry requestId p) = p"

fun request_of :: "timer \<Rightarrow> string" where
  "request_of (Ping_timer requestId t) = requestId"
| "request_of (Capture_timer requestId t) = requestId"

text \<open>
  In every state the script reaches, the promises held by the entries were made earlier
  and a capture entry sits under the identifier it closes over. An identifier is unused
  when no armed timer belongs to a request that carries it (no request made in the same
  millisecond is still waiting).
\<close>

definition well_formed :: "state \<Rightarrow> bool" where
  "well_formed s \<longleftrightarrow>
     (\<forall>r e. pendingCaptures s r = Some e \<longrightarrow>
        promise_of e < next_promise s \<and> (\<forall>r' q. e = Capture_entry r' q \<longrightarrow> r' = r))"

definition unused :: "string \<Rightarrow> state \<Rightarrow> bool" where
  "unused requestId s \<longleftrightarrow> (\<forall>q tm. timers s q = Some tm \<longrightarrow> request_of tm \<noteq> requestId)"

text \<open>All other events: messages with another identifier (or none), of another type, or
  pongs that report no image; and other timers.\<close>

fun unrelated :: "string \<Rightarrow> nat \<Rightarrow> event \<Rightarrow> bool" where
  "unrelated requestId p (Message h m) \<longleftrightarrow>
     msg_requestId m \<noteq> requestId \<or>
     (msg_type m \<noteq> ''VS_PAGE_CAPTURED'' \<and> (msg_type m \<noteq> ''VS_PONG'' \<or> \<not> msg_hasImage m))"
| "unrelated requestId p (Timeout q t) \<longleftrightarrow> q \<noteq> p"

text \<open>
  \<open>keeps rid p s s'\<close>: from \<open>s\<close> to \<open>s'\<close> nothing of request \<open>rid\<close> with promise \<open>p\<close>
  has changed, and no entry or timer has appeared. \<open>alone rid p s\<close>: no other entry and
  no other timer of \<open>s\<close> refers to the request.
\<close>

definition keeps :: "string \<Rightarrow> nat \<Rightarrow> state \<Rightarrow> state \<Rightarrow> bool" where
  "keeps rid p s s' \<longleftrightarrow>
     promises s' p = promises s p \<and> resolved s' p = resolved s p \<and>
     timers s' p = timers s p \<and> pendingCaptures s' rid = pendingCaptures s rid \<and>
     (\<forall>r x. pendingCaptures s' r = Some x \<longrightarrow> pendingCaptures s r = Some x) \<and>
     (\<forall>q tm. timers s' q = Some tm \<longrightarrow> timers s q = Some tm)"

definition alone :: "string \<Rightarrow> nat \<Rightarrow> state \<Rightarrow> bool" where
  "alone rid p s \<longleftrightarrow>
     (\<forall>r e. pendingCaptures s r = Some e \<longrightarrow> r \<noteq> rid \<longrightarrow>
        promise_of e \<noteq> p \<and> (\<forall>r' q. e = Capture_entry r' q \<longrightarrow> r' \<noteq> rid)) \<and>
     (\<forall>q tm. timers s q = Some tm \<longrightarrow> q \<noteq> p \<longrightarrow> request_of tm \<noteq> rid)"

text \<open>
  The states of the request layer that the script can be in: it starts with nothing
  pending, receives messages, has timers fire, and makes probe and capture calls.
  \<open>shrinks s s'\<close>: from \<open>s\<close> to \<open>s'\<close> no promise was made and no entry or timer has
  appeared.
\<close>

inductive reachable :: "state \<Rightarrow> bool" where
  start: "reachable initial_state"
| message: "reachable s \<Longrightarrow> reachable (on_message h m s)"
| timeout: "reachable s \<Longrightarrow> reachable (on_timeout p t s)"
| ping: "reachable s \<Longrightarrow> reachable (snd (pingIframe h s))"
| capture: "reachable s \<Longrightarrow> reachable (snd (captureCurrentPage h s))"

definition shrinks :: "state \<Rightarrow> state \<Rightarrow> bool" where
  "shrinks s s' \<longleftrightarrow>
     next_promise s' = next_promise s \<and>
     (\<forall>r x. pendingCaptures s' r = Some x \<longrightarrow> pendingCaptures s r = Some x) \<and>
     (\<forall>q tm. timers s' q = Some tm \<longrightarrow> timers s q = Some tm)"

text \<open>
  What the request layer goes through between the registration of a request and any later
  moment: events (messages and timers), and further calls of \<^verbatim>\<open>pingIframe\<close> and
  \<^verbatim>\<open>captureCurrentPage\<close>, each with the host as it is then. \<open>elsewhere rid a\<close>: the
  activity makes no request under the identifier \<open>rid\<close>.
\<close>

datatype activity = Happens event | Calls_pingIframe host | Calls_captureCurrentPage host

fun perform :: "activity \<Rightarrow> state \<Rightarrow> state" where
  "perform (Happens e) s = step e s"
| "perform (Calls_pingIframe h) s = snd (pingIframe h s)"
| "perform (Calls_captureCurrentPage h) s = snd (captureCurrentPage h s)"

definition perform_all :: "activity list \<Rightarrow> state \<Rightarrow> state" where
  "perform_all as s = fold perform as s"

fun elsewhere :: "string \<Rightarrow> activity \<Rightarrow> bool" where
  "elsewhere rid (Happens e) \<longleftrightarrow> True"
| "elsewhere rid (Calls_pingIframe h) \<longleftrightarrow> ping_id (now h) \<noteq> rid"
| "elsewhere rid (Calls_captureCurrentPage h) \<longleftrightarrow> capture_id (now h) \<noteq> rid"

section \<open>The Frame Agent (iframe.js)\<close>

record img =
  img_id :: string
  naturalWidth :: nat
  naturalHeight :: nat
  complete :: bool

text \<open>
  The document of a frame: its \<^verbatim>\<open>img\<close> elements in document order, its own URL, its
  child frames, and the frames inside the shadow root of a \<^verbatim>\<open>mosaic-book\<close> element
  (\<open>None\<close> without such an element or without a shadow root).
\<close>

record document =
  images :: "img list"
  currentUrl :: string
  iframes :: "nat list"
  mosaic_iframes :: "nat list option"

definition findPageImage :: "document \<Rightarrow> img option" where
  "findPageImage d =
     (case find (\<lambda>i. img_id i = ''pbk-page'') (images d) of
        Some primary \<Rightarrow> Some primary
      | None \<Rightarrow> find (\<lambda>i. naturalWidth i > 400 \<and> naturalHeight i > 400) (images d))"

definition hasPageImage :: "document \<Rightarrow> bool" where
  "hasPageImage d \<longleftrightarrow> findPageImage d \<noteq> None"

datatype out = To_parent message | To_child nat message

definition sendToParent :: "message \<Rightarrow> out list" where
  "sendToParent m = [To_parent m]"

definition forwardToChildren :: "document \<Rightarrow> message \<Rightarrow> out list" where
  "forwardToChildren d m =
     map (\<lambda>c. To_child c m) (iframes d) @
     (case mosaic_iframes d of None \<Rightarrow> [] | Some cs \<Rightarrow> map (\<lambda>c. To_child c m) cs)"

text \<open>
  What \<^verbatim>\<open>captureImage\<close> meets while it waits for an unfinished image: the load event
  (with the image as it is then), the error event, or neither within 10000 ms. The canvas
  is a parameter: \<open>toDataURL i\<close> is the encoded image, or the message of the exception
  that drawing or encoding throws.
\<close>

datatype load_event = Onload img | Onerror | No_event

record frame_env =
  load :: load_event
  toDataURL :: "img \<Rightarrow> string + string"

definition render :: "frame_env \<Rightarrow> img \<Rightarrow> string + payload" where
  "render env i =
     (case toDataURL env i of
        Inl e \<Rightarrow> Inl e
      | Inr d \<Rightarrow> Inr \<lparr>data = d, width = naturalWidth i, height = naturalHeight i\<rparr>)"

definition captureImage :: "frame_env \<Rightarrow> img \<Rightarrow> string + payload" where
  "captureImage env i =
     (if \<not> complete i \<or> naturalWidth i = 0 then
        (case load env of
           Onload i' \<Rightarrow> render env i'
         | Onerror \<Rightarrow> Inl ''Image failed to load''
         | No_event \<Rightarrow> Inl ''Image load timeout'')
      else render env i)"

text \<open>The \<^verbatim>\<open>message\<close> listener of iframe.js; its result is what the frame posts.\<close>

definition on_frame_message :: "frame_env \<Rightarrow> document \<Rightarrow> message \<Rightarrow> out list" where
  "on_frame_message env d m =
     (let type = msg_type m; requestId = msg_requestId m in
      if type = [] \<or> \<not> prefix ''VS_'' type \<or> requestId = [] then []
      else
        (if type = ''VS_CAPTURE_PAGE'' then
           (case findPageImage d of
              Some pageImg \<Rightarrow>
                (case captureImage env pageImg of
                   Inr imageData \<Rightarrow>
                     sendToParent (empty_message\<lparr>msg_type := ''VS_PAGE_CAPTURED'',
                       msg_requestId := requestId, msg_success := True,
                       msg_data := Some (Image imageData)\<rparr>)
                 | Inl e \<Rightarrow>
                     sendToParent (empty_message\<lparr>msg_type := ''VS_PAGE_CAPTURED'',
                       msg_requestId := requestId, msg_success := False, msg_error := e\<rparr>))
            | None \<Rightarrow> [])
           @ forwardToChildren d m
         else [])
        @
        (if type = ''VS_PING'' then
           sendToParent (empty_message\<lparr>msg_type := ''VS_PONG'', msg_requestId := requestId,
             msg_hasImage := hasPageImage d, msg_url := currentUrl d\<rparr>)
           @ forwardToChildren d m
         else []))"

definition announceReady :: "document \<Rightarrow> out list" where
  "announceReady d =
     sendToParent (empty_message\<lparr>msg_type := ''VS_IFRAME_READY'', msg_hasImage := hasPageImage d,
       msg_url := currentUrl d\<rparr>)"

definition is_response :: "out \<Rightarrow> bool" where
  "is_response x = (case x of To_parent m \<Rightarrow> True | To_child c m \<Rightarrow> False)"

section \<open>The pagination capture loop (content.js)\<close>

text \<open>
  The Next button of the host page: missing, or present with its \<^verbatim>\<open>disabled\<close> property
  and its \<^verbatim>\<open>aria-disabled\<close> attribute.
\<close>

record button =
  disabled :: bool
  aria_disabled :: "string option"

definition goToNextPage :: "button option \<Rightarrow> string + unit" where
  "goToNextPage nextBtn =
     (case nextBtn of
        None \<Rightarrow> Inl ''No Next button''
      | Some b \<Rightarrow>
          if disabled b \<or> aria_disabled b = Some ''true'' then Inl ''Last page''
          else Inr ())"

definition updateStatus :: "status_message \<Rightarrow> status_kind \<Rightarrow> state \<Rightarrow> state" where
  "updateStatus message kind s = s\<lparr>status := Some (message, kind)\<rparr>"

definition page_limit :: "int option \<Rightarrow> int" where
  "page_limit v = (case v of None \<Rightarrow> 10 | Some n \<Rightarrow> if n = 0 then 10 else n)"

text \<open>
  \<^verbatim>\<open>generatePDF\<close>, as far as the session state goes: it changes the status only. The
  PDF library is outside this development; \<open>pdf\<close> is the message of the exception it
  throws, if it throws one.
\<close>

definition generatePDF :: "string option \<Rightarrow> state \<Rightarrow> state" where
  "generatePDF pdf s =
     (if length (capturedPages s) = 0 then updateStatus No_pages_captured Error_status s
      else (case pdf of
              None \<Rightarrow> updateStatus (Download_started (length (capturedPages s))) Success_status s
            | Some e \<Rightarrow> updateStatus (PDF_error e) Error_status s))"

text \<open>
  \<^verbatim>\<open>startCapture\<close>, one stretch of code at a time. A call runs until its first
  \<^verbatim>\<open>await\<close> and waits there; when what it waits for is there, it runs on to the next
  \<^verbatim>\<open>await\<close> or to its end. What a waiting call can be given: the settlement of the
  probe (rejection message or value), the end of a \<^verbatim>\<open>sleep\<close>, and the settlement of
  \<^verbatim>\<open>captureCurrentPage\<close> (rejection message or stamped page) together with the Next
  button as the call of \<^verbatim>\<open>goToNextPage\<close> in the \<^verbatim>\<open>try\<close> block and the one in the
  \<^verbatim>\<open>catch\<close> block find it.
\<close>

datatype awaited =
    Ping_settled "string + settled"
  | Sleep_over
  | Capture_settled "string + captured_page" "button option" "button option"

text \<open>The end of the function, lines 298-299: the flag is lowered.\<close>

definition finish :: "activation \<Rightarrow> state \<Rightarrow> activation \<times> state" where
  "finish a s = (a\<lparr>run_at := Returned\<rparr>, s\<lparr>isRunning := False\<rparr>)"

text \<open>The test of the \<^verbatim>\<open>while\<close> loop, and the \<^verbatim>\<open>sleep(500)\<close> that opens its body.\<close>

definition loop_head :: "activation \<Rightarrow> state \<Rightarrow> activation \<times> state" where
  "loop_head a s =
     (if isRunning s \<and> int (run_captured a) < run_pageLimit a
      then (a\<lparr>run_at := Awaits_sleep\<rparr>, s)
      else finish a s)"

text \<open>The \<^verbatim>\<open>catch\<close> block, for the exception with message \<open>e\<close>.\<close>

definition after_throw :: "string \<Rightarrow> button option \<Rightarrow> activation \<Rightarrow> state \<Rightarrow> activation \<times> state" where
  "after_throw e retry a s =
     (if e = ''Last page'' then
        finish a (updateStatus (Done_captured (length (capturedPages s))) Success_status s)
      else
        let s1 = updateStatus (Error_on_page (run_pageNum a) e) Error_status s in
        (case goToNextPage retry of
           Inr _ \<Rightarrow> (a\<lparr>run_at := Awaits_goToNextPage\<rparr>, s1)
         | Inl _ \<Rightarrow> finish a s1))"

text \<open>
  The synchronous start of \<^verbatim>\<open>startCapture\<close>, lines 249-259: the guard, the flag, the
  page limit and the page number read from the page, the status, and the call of
  \<^verbatim>\<open>pingIframe\<close> at which the new call waits.
\<close>

definition start_activation :: "int option \<Rightarrow> host \<Rightarrow> state \<Rightarrow> state" where
  "start_activation limit h s =
     (if isRunning s then s
      else
        let s1 = s\<lparr>isRunning := True\<rparr>;
            a = \<lparr>run_pageLimit = page_limit limit,
                 run_pageNum = current (getCurrentPageInfo h),
                 run_captured = 0, run_at = Awaits_pingIframe\<rparr>
        in (updateStatus Checking_connection Info_status s1)\<lparr>activations := activations s1 @ [a]\<rparr>)"

text \<open>
  A waiting call runs on. A call that is given something it does not wait for stays as it
  is.
\<close>

fun resume :: "awaited \<Rightarrow> activation \<Rightarrow> state \<Rightarrow> activation \<times> state" where
  "resume (Ping_settled r) a s =
     (if run_at a \<noteq> Awaits_pingIframe then (a, s)
      else
        (case r of
           Inl e \<Rightarrow> finish a (updateStatus (Error_message e) Error_status s)
         | Inr info \<Rightarrow> loop_head a (updateStatus (Starting_from (run_pageNum a)) Info_status s)))"
| "resume Sleep_over a s =
     (if run_at a = Awaits_sleep then (a\<lparr>run_at := Awaits_captureCurrentPage\<rparr>, s)
      else if run_at a = Awaits_goToNextPage
      then loop_head (a\<lparr>run_pageNum := run_pageNum a + 1\<rparr>) s
      else (a, s))"
| "resume (Capture_settled r next retry) a s =
     (if run_at a \<noteq> Awaits_captureCurrentPage then (a, s)
      else
        (case r of
           Inl e \<Rightarrow> after_throw e retry a s
         | Inr pageData \<Rightarrow>
             let s2 = s\<lparr>capturedPages := capturedPages s @ [pageData]\<rparr>;
                 a' = a\<lparr>run_captured := Suc (run_captured a)\<rparr>;
                 s3 = updateStatus (Captured_page (run_pageNum a) (length (capturedPages s2)))
                        Info_status s2
             in
               if int (run_captured a') \<ge> run_pageLimit a then
                 finish a' (updateStatus (Done_captured (length (capturedPages s3))) Success_status s3)
               else
                 (case goToNextPage next of
                    Inr _ \<Rightarrow> (a'\<lparr>run_at := Awaits_goToNextPage\<rparr>, s3)
                  | Inl e \<Rightarrow> after_throw e retry a' s3)))"

text \<open>
  What can happen while a call of \<^verbatim>\<open>startCapture\<close> is suspended at an \<^verbatim>\<open>await\<close>:
  \<^item> \<open>Stop\<close>: the modal is hidden (\<^verbatim>\<open>hideModal\<close>), or the action button is clicked while
    the flag is up;
  \<^item> \<open>Clear\<close>: the clear button is clicked;
  \<^item> \<open>Click\<close>: the action button is clicked, lines 477-486, with the value of the
    page-limit input, the host page and the outcome of the PDF library at that moment: it
    lowers the flag, or generates the PDF, or calls \<^verbatim>\<open>startCapture\<close> once more, and
    that call waits among the \<open>activations\<close>;
  \<^item> \<open>Resume i x\<close>: the \<open>i\<close>-th of these other calls is given \<open>x\<close> and runs on.

  The header button's \<^verbatim>\<open>downloadCurrentPageDirect\<close> touches neither the list of pages nor
  the flag and is left out.
\<close>

datatype user_action =
    Stop
  | Clear
  | Click "int option" host "string option"
  | Resume nat awaited

fun apply_action :: "user_action \<Rightarrow> state \<Rightarrow> state" where
  "apply_action Stop s = s\<lparr>isRunning := False\<rparr>"
| "apply_action Clear s = updateStatus Cleared_all_pages Info_status (s\<lparr>capturedPages := []\<rparr>)"
| "apply_action (Click limit h pdf) s =
     (if isRunning s then s\<lparr>isRunning := False\<rparr>
      else if length (capturedPages s) > 0 then generatePDF pdf s
      else start_activation limit h s)"
| "apply_action (Resume i x) s =
     (if i < length (activations s) then
        (case resume x (activations s ! i) s of
           (a, s') \<Rightarrow> s'\<lparr>activations := (activations s')[i := a]\<rparr>)
      else s)"

definition user_actions :: "user_action list \<Rightarrow> state \<Rightarrow> state" where
  "user_actions as s = fold apply_action as s"

text \<open>
  The call of \<^verbatim>\<open>startCapture\<close> that a theorem follows from its start to its end is
  written as one function, \<open>startCapture\<close> below, with what happens at its \<^verbatim>\<open>await\<close>s
  given as lists of such actions. One pass through the body of the \<^verbatim>\<open>while\<close> loop
  meets: the actions while the capture is awaited, the settlement of
  \<^verbatim>\<open>captureCurrentPage\<close> (rejection message or stamped page), the Next button as the
  call in the \<^verbatim>\<open>try\<close> block finds it, the Next button as the call in the \<^verbatim>\<open>catch\<close>
  block finds it, and the actions during the 1500 ms that follow a click.
\<close>

record iteration =
  during_capture :: "user_action list"
  capture :: "string + captured_page"
  advance :: "button option"
  recovery :: "button option"
  during_advance :: "user_action list"

datatype 'a flow = Break 'a | Continue 'a

text \<open>The \<^verbatim>\<open>catch\<close> block of the loop; the second component is \<^verbatim>\<open>pageNum\<close>.\<close>

definition catch_block :: "iteration \<Rightarrow> int \<Rightarrow> string \<Rightarrow> state \<Rightarrow> (state \<times> int) flow" where
  "catch_block it pageNum e s =
     (if e = ''Last page'' then
        Break (updateStatus (Done_captured (length (capturedPages s))) Success_status s, pageNum)
      else
        let s1 = updateStatus (Error_on_page pageNum e) Error_status s in
        (case goToNextPage (recovery it) of
           Inr _ \<Rightarrow> Continue (user_actions (during_advance it) s1, pageNum + 1)
         | Inl _ \<Rightarrow> Break (s1, pageNum)))"

text \<open>The body of the loop; the result carries the state, \<^verbatim>\<open>captured\<close> and \<^verbatim>\<open>pageNum\<close>.\<close>

definition loop_body ::
  "iteration \<Rightarrow> int \<Rightarrow> nat \<Rightarrow> int \<Rightarrow> state \<Rightarrow> (state \<times> nat \<times> int) flow" where
  "loop_body it pageLimit captured pageNum s =
     (let s1 = user_actions (during_capture it) s in
      case capture it of
        Inl e \<Rightarrow>
          (case catch_block it pageNum e s1 of
             Break (s', n) \<Rightarrow> Break (s', captured, n)
           | Continue (s', n) \<Rightarrow> Continue (s', captured, n))
      | Inr pageData \<Rightarrow>
          let s2 = s1\<lparr>capturedPages := capturedPages s1 @ [pageData]\<rparr>;
              captured' = Suc captured;
              s3 = updateStatus (Captured_page pageNum (length (capturedPages s2))) Info_status s2
          in
            if int captured' \<ge> pageLimit then
              Break (updateStatus (Done_captured (length (capturedPages s3))) Success_status s3,
                     captured', pageNum)
            else
              (case goToNextPage (advance it) of
                 Inr _ \<Rightarrow> Continue (user_actions (during_advance it) s3, captured', pageNum + 1)
               | Inl e \<Rightarrow>
                   (case catch_block it pageNum e s3 of
                      Break (s', n) \<Rightarrow> Break (s', captured', n)
                    | Continue (s', n) \<Rightarrow> Continue (s', captured', n))))"

text \<open>
  The \<^verbatim>\<open>while\<close> loop over the passes the surroundings provide. \<open>None\<close>: the loop has
  not ended when the list is used up.
\<close>

fun capture_loop :: "iteration list \<Rightarrow> int \<Rightarrow> nat \<Rightarrow> int \<Rightarrow> state \<Rightarrow> state option" where
  "capture_loop [] pageLimit captured pageNum s =
     (if isRunning s \<and> int captured < pageLimit then None else Some s)"
| "capture_loop (it # its) pageLimit captured pageNum s =
     (if isRunning s \<and> int captured < pageLimit then
        (case loop_body it pageLimit captured pageNum s of
           Break (s', captured', pageNum') \<Rightarrow> Some s'
         | Continue (s', captured', pageNum') \<Rightarrow> capture_loop its pageLimit captured' pageNum' s')
      else Some s)"

text \<open>
  A run of \<^verbatim>\<open>startCapture\<close>: the result of \<^verbatim>\<open>parseInt\<close> on the page-limit input
  (\<open>None\<close> for NaN), the host page at the start, the actions while the probe is
  awaited, the settlement of the probe and the passes of the loop.
\<close>

record capture_run =
  limit_input :: "int option"
  start_host :: host
  during_ping :: "user_action list"
  ping :: "string + settled"
  iterations :: "iteration list"

definition startCapture :: "capture_run \<Rightarrow> state \<Rightarrow> state option" where
  "startCapture r s =
     (if isRunning s then Some s
      else
        let s1 = s\<lparr>isRunning := True\<rparr>;
            pageLimit = page_limit (limit_input r);
            pageNum = current (getCurrentPageInfo (start_host r));
            s2 = user_actions (during_ping r) (updateStatus Checking_connection Info_status s1)
        in (case ping r of
              Inl e \<Rightarrow> Some ((updateStatus (Error_message e) Error_status s2)\<lparr>isRunning := False\<rparr>)
            | Inr info \<Rightarrow>
                map_option (\<lambda>s'. s'\<lparr>isRunning := False\<rparr>)
                  (capture_loop (iterations r) pageLimit 0 pageNum
                     (updateStatus (Starting_from pageNum) Info_status s2))))"

text \<open>The click handler of the action button, the only caller of \<^verbatim>\<open>startCapture\<close>.\<close>

definition action_click :: "capture_run \<Rightarrow> string option \<Rightarrow> state \<Rightarrow> state option" where
  "action_click r pdf s =
     (if isRunning s then Some (s\<lparr>isRunning := False\<rparr>)
      else if length (capturedPages s) > 0 then Some (generatePDF pdf s)
      else startCapture r s)"

text \<open>
  A list of actions among which no other call of \<^verbatim>\<open>startCapture\<close> runs on, and a run
  all of whose lists are so.
\<close>

fun runs_on :: "user_action \<Rightarrow> bool" where
  "runs_on (Resume i x) = True"
| "runs_on Stop = False"
| "runs_on Clear = False"
| "runs_on (Click limit h pdf) = False"

definition undisturbed :: "user_action list \<Rightarrow> bool" where
  "undisturbed as \<longleftrightarrow> list_all (\<lambda>a. \<not> runs_on a) as"

definition undisturbed_run :: "capture_run \<Rightarrow> bool" where
  "undisturbed_run r \<longleftrightarrow>
     undisturbed (during_ping r) \<and>
     list_all (\<lambda>it. undisturbed (during_capture it) \<and> undisturbed (during_advance it))
       (iterations r)"

section \<open>Filename sanitization\<close>

lemma replace_spaces_chars:
  "c \<in> set (replace_spaces cs) \<Longrightarrow> c = underscore \<or> (c \<in> set cs \<and> \<not> is_space c)"
proof (induction cs rule: replace_spaces.induct)
  case 1
  then show ?case by simp
next
  case (2 d ds)
  show ?case
  proof (cases "is_space d")
    case True
    with "2.prems" have "c = underscore \<or> c \<in> set (replace_spaces (dropWhile is_space ds))"
      by simp
    then show ?thesis
    proof
      assume "c = underscore"
      then show ?thesis by simp
    next
      assume "c \<in> set (replace_spaces (dropWhile is_space ds))"
      with "2.IH"(1) True have "c = underscore \<or> (c \<in> set (dropWhile is_space ds) \<and> \<not> is_space c)"
        by simp
      then show ?thesis
        using set_dropWhileD [of c is_space ds] by auto
    qed
  next
    case False
    with "2.prems" have "c = d \<or> c \<in> set (replace_spaces ds)"
      by simp
    then show ?thesis
      using "2.IH"(2) False by auto
  qed
qed

lemma replace_spaces_word:
  "\<forall>c\<in>set w. \<not> is_space c \<Longrightarrow> replace_spaces (w @ cs) = w @ replace_spaces cs"
  by (induction w) auto

lemma replace_spaces_run:
  assumes "ws \<noteq> []" and "\<forall>c\<in>set ws. is_space c" and "\<forall>c\<in>set b. \<not> is_space c"
  shows "replace_spaces (ws @ b) = underscore # b"
proof -
  obtain x xs where ws: "ws = x # xs"
    using assms(1) by (cases ws) auto
  have drop: "dropWhile is_space (xs @ b) = b"
    using assms(2,3) unfolding ws by (cases b) (auto simp: dropWhile_append)
  have "replace_spaces b = b"
    using replace_spaces_word [of b "[]"] assms(3) by simp
  then show ?thesis
    using assms(2) drop unfolding ws by simp
qed

lemma sanitizeFilename_example:
  "sanitizeFilename (of_ascii ''Intro to C++: Vol. 2!'') = of_ascii ''Intro_to_C_Vol_2''"
  by (simp add: sanitizeFilename_def of_ascii_def kept_def is_letter_def is_digit_def
      is_space_def hyphen_def underscore_def)

text \<open>
  C8. For every input string, \<^verbatim>\<open>sanitizeFilename\<close> returns a string of letters,
  digits, hyphens and underscores only (so no whitespace is left), of at most 50 code
  units; a run of whitespace between two words of permitted characters comes out as one
  underscore; and the title "Intro to C++: Vol. 2!" becomes "Intro_to_C_Vol_2".
\<close>

theorem sanitizeFilename_charset:
  "(\<forall>c\<in>set (sanitizeFilename name). is_letter c \<or> is_digit c \<or> c = hyphen \<or> c = underscore)
   \<and> (\<forall>c\<in>set (sanitizeFilename name). \<not> is_space c)
   \<and> length (sanitizeFilename name) \<le> 50
   \<and> (\<forall>a ws b. (\<forall>c\<in>set (a @ b). kept c \<and> \<not> is_space c) \<and> ws \<noteq> [] \<and> (\<forall>c\<in>set ws. is_space c)
        \<longrightarrow> sanitizeFilename (a @ ws @ b) = take 50 (a @ underscore # b))
   \<and> sanitizeFilename (of_ascii ''Intro to C++: Vol. 2!'') = of_ascii ''Intro_to_C_Vol_2''"
proof (intro conjI allI impI ballI)
  fix c
  assume c: "c \<in> set (sanitizeFilename name)"
  then have "c \<in> set (replace_spaces (filter kept name))"
    unfolding sanitizeFilename_def by (rule in_set_takeD)
  then have "c = underscore \<or> (c \<in> set (filter kept name) \<and> \<not> is_space c)"
    by (rule replace_spaces_chars)
  then have "c = underscore \<or> (kept c \<and> \<not> is_space c)"
    by auto
  then show "is_letter c \<or> is_digit c \<or> c = hyphen \<or> c = underscore"
    by (auto simp: kept_def)
next
  fix c
  assume c: "c \<in> set (sanitizeFilename name)"
  then have "c \<in> set (replace_spaces (filter kept name))"
    unfolding sanitizeFilename_def by (rule in_set_takeD)
  then have "c = underscore \<or> (c \<in> set (filter kept name) \<and> \<not> is_space c)"
    by (rule replace_spaces_chars)
  moreover have "\<not> is_space underscore"
    by (simp add: is_space_def underscore_def)
  ultimately show "\<not> is_space c"
    by auto
next
  show "length (sanitizeFilename name) \<le> 50"
    by (simp add: sanitizeFilename_def)
next
  fix a ws b :: js_string
  assume h: "(\<forall>c\<in>set (a @ b). kept c \<and> \<not> is_space c) \<and> ws \<noteq> [] \<and> (\<forall>c\<in>set ws. is_space c)"
  then have ka: "filter kept a = a" and kb: "filter kept b = b"
    by (auto intro: filter_True)
  have kw: "filter kept ws = ws"
    using h by (auto simp: kept_def intro: filter_True)
  have "replace_spaces (a @ ws @ b) = a @ replace_spaces (ws @ b)"
    using h by (intro replace_spaces_word) auto
  also have "replace_spaces (ws @ b) = underscore # b"
    using h by (intro replace_spaces_run) auto
  finally show "sanitizeFilename (a @ ws @ b) = take 50 (a @ underscore # b)"
    by (simp add: sanitizeFilename_def ka kb kw)
next
  show "sanitizeFilename (of_ascii ''Intro to C++: Vol. 2!'') = of_ascii ''Intro_to_C_Vol_2''"
    by (rule sanitizeFilename_example)
qed

theorem sanitizeFilename_charset_witness:
  "list_all (\<lambda>c. is_letter c \<or> is_digit c \<or> c = hyphen \<or> c = underscore)
     (sanitizeFilename (of_ascii ''a b/c''))
   \<and> sanitizeFilename (of_ascii ''ab'' @ of_ascii ''  '' @ of_ascii ''c-d'') = of_ascii ''ab_c-d''"
proof -
  have w: "(\<forall>c\<in>set (of_ascii ''ab'' @ of_ascii ''c-d''). kept c \<and> \<not> is_space c)
      \<and> of_ascii ''  '' \<noteq> [] \<and> (\<forall>c\<in>set (of_ascii ''  ''). is_space c)"
    by (simp add: of_ascii_def kept_def is_letter_def is_digit_def is_space_def hyphen_def
        underscore_def)
  have t: "take 50 (of_ascii ''ab'' @ underscore # of_ascii ''c-d'') = of_ascii ''ab_c-d''"
    by (simp add: of_ascii_def underscore_def)
  from sanitizeFilename_charset [of "of_ascii ''a b/c''"] w t show ?thesis
    unfolding list_all_iff by (metis (no_types, lifting))
qed

section \<open>Settlement of pending requests\<close>

lemma settle_fields:
  "pendingCaptures (settle p v s) = pendingCaptures s"
  "timers (settle p v s) = timers s"
  "resolved (settle p v s) = resolved s"
  "readyFrames (settle p v s) = readyFrames s"
  "promises (settle p v s) q = (if q = p \<and> promises s p = Pending then v else promises s q)"
  by (simp_all add: settle_def)

lemma clearTimeout_fields:
  "pendingCaptures (clearTimeout p s) = pendingCaptures s"
  "timers (clearTimeout p s) = (timers s)(p := None)"
  "resolved (clearTimeout p s) = resolved s"
  "readyFrames (clearTimeout p s) = readyFrames s"
  "promises (clearTimeout p s) = promises s"
  by (simp_all add: clearTimeout_def)

lemma delete_pending_fields:
  "pendingCaptures (delete_pending r s) = (pendingCaptures s)(r := None)"
  "timers (delete_pending r s) = timers s"
  "resolved (delete_pending r s) = resolved s"
  "readyFrames (delete_pending r s) = readyFrames s"
  "promises (delete_pending r s) = promises s"
  by (simp_all add: delete_pending_def)

lemmas fields = settle_fields clearTimeout_fields delete_pending_fields

lemma on_message_captured:
  "msg_type m = ''VS_PAGE_CAPTURED'' \<Longrightarrow>
   on_message h m s =
     (if msg_requestId m = [] then s
      else case pendingCaptures s (msg_requestId m) of
             None \<Rightarrow> s
           | Some e \<Rightarrow>
               if msg_success m
               then entry_resolve h e (msg_data m) (delete_pending (msg_requestId m) s)
               else entry_reject e (if msg_error m = [] then ''Capture failed'' else msg_error m)
                      (delete_pending (msg_requestId m) s))"
  by (simp add: on_message_def Let_def split: option.splits)

lemma on_message_pong:
  "msg_type m = ''VS_PONG'' \<Longrightarrow>
   on_message h m s =
     (if msg_requestId m = [] \<or> \<not> msg_hasImage m then s
      else case pendingCaptures s (msg_requestId m) of
             None \<Rightarrow> s
           | Some e \<Rightarrow>
               entry_resolve h e (Some (Info \<lparr>hasImage = msg_hasImage m, url = msg_url m\<rparr>))
                 (delete_pending (msg_requestId m) s))"
  by (simp add: on_message_def Let_def split: option.splits)

lemma on_message_ready:
  "msg_type m = ''VS_IFRAME_READY'' \<Longrightarrow>
   on_message h m s = s\<lparr>readyFrames := readyFrames s @ [\<lparr>hasImage = msg_hasImage m, url = msg_url m\<rparr>]\<rparr>"
  by (simp add: on_message_def Let_def)

lemma on_message_other:
  "msg_type m \<noteq> ''VS_PAGE_CAPTURED'' \<Longrightarrow> msg_type m \<noteq> ''VS_PONG'' \<Longrightarrow>
   msg_type m \<noteq> ''VS_IFRAME_READY'' \<Longrightarrow> on_message h m s = s"
  by (simp add: on_message_def Let_def)


lemma ping_resolve_closed:
  assumes "ping_registered requestId p s"
  shows "closed requestId p (entry_resolve h (Ping_entry p) d (delete_pending requestId s))"
  using assms by (simp add: ping_registered_def closed_def fields)

lemma ping_reject_closed:
  assumes "ping_registered requestId p s"
  shows "closed requestId p (entry_reject (Ping_entry p) err (delete_pending requestId s))"
  using assms by (simp add: ping_registered_def closed_def fields)

lemma capture_resolve_closed:
  assumes "capture_registered requestId p s"
  shows "closed requestId p (entry_resolve h (Capture_entry requestId p) d (delete_pending requestId s))"
  using assms by (simp add: capture_registered_def closed_def fields Let_def split: option.splits)

lemma capture_reject_closed:
  assumes "capture_registered requestId p s"
  shows "closed requestId p (entry_reject (Capture_entry requestId p) err (delete_pending requestId s))"
  using assms by (simp add: capture_registered_def closed_def fields Let_def)

lemma registered_message:
  assumes reg: "registered requestId p s"
    and rid: "msg_requestId m = requestId"
    and ty: "msg_type m = ''VS_PAGE_CAPTURED'' \<or> msg_type m = ''VS_PONG''"
  shows "on_message h m s = s \<or> closed requestId p (on_message h m s)"
proof -
  from reg consider (ping) "ping_registered requestId p s" | (capture) "capture_registered requestId p s"
    unfolding registered_def by blast
  then show ?thesis
  proof cases
    case ping
    then have e: "pendingCaptures s requestId = Some (Ping_entry p)"
      by (simp add: ping_registered_def)
    from ty show ?thesis
    proof
      assume "msg_type m = ''VS_PAGE_CAPTURED''"
      then show ?thesis
        using ping_resolve_closed [OF ping] ping_reject_closed [OF ping]
        by (simp add: on_message_captured rid e)
    next
      assume "msg_type m = ''VS_PONG''"
      then show ?thesis
        using ping_resolve_closed [OF ping]
        by (simp add: on_message_pong rid e)
    qed
  next
    case capture
    then have e: "pendingCaptures s requestId = Some (Capture_entry requestId p)"
      by (simp add: capture_registered_def)
    from ty show ?thesis
    proof
      assume "msg_type m = ''VS_PAGE_CAPTURED''"
      then show ?thesis
        using capture_resolve_closed [OF capture] capture_reject_closed [OF capture]
        by (simp add: on_message_captured rid e)
    next
      assume "msg_type m = ''VS_PONG''"
      then show ?thesis
        using capture_resolve_closed [OF capture]
        by (simp add: on_message_pong rid e)
    qed
  qed
qed

lemma registered_timeout:
  assumes reg: "registered requestId p s"
  shows "on_timeout p t s = s \<or> closed requestId p (on_timeout p t s)"
proof -
  from reg consider (ping) "ping_registered requestId p s" | (capture) "capture_registered requestId p s"
    unfolding registered_def by blast
  then show ?thesis
  proof cases
    case ping
    then obtain d where tm: "timers s p = Some (Ping_timer requestId d)"
      and pe: "promises s p = Pending"
      by (auto simp: ping_registered_def split: option.splits timer.splits)
    show ?thesis
      using pe by (simp add: on_timeout_def tm Let_def closed_def fields split: option.splits)
  next
    case capture
    then obtain d where tm: "timers s p = Some (Capture_timer requestId d)"
      and pe: "promises s p = Pending" and re: "\<not> resolved s p"
      by (auto simp: capture_registered_def split: option.splits timer.splits)
    show ?thesis
      using pe re by (simp add: on_timeout_def tm Let_def closed_def fields)
  qed
qed

lemma closed_message:
  assumes "closed requestId p s" and "msg_requestId m = requestId"
    and "msg_type m = ''VS_PAGE_CAPTURED'' \<or> msg_type m = ''VS_PONG''"
  shows "on_message h m s = s"
  using assms by (auto simp: closed_def on_message_captured on_message_pong)

lemma closed_timeout:
  assumes "closed requestId p s"
  shows "closed requestId p (on_timeout p t s) \<and> promises (on_timeout p t s) p = promises s p"
proof (cases "timers s p")
  case None
  then show ?thesis using assms by (simp add: on_timeout_def)
next
  case (Some tm)
  with assms have np: "promises s p \<noteq> Pending" and pn: "pendingCaptures s requestId = None"
    by (auto simp: closed_def)
  show ?thesis
  proof (cases tm)
    case (Ping_timer r d)
    then show ?thesis
      using np pn Some
      by (simp add: on_timeout_def Let_def closed_def fields split: option.splits)
  next
    case (Capture_timer r d)
    then show ?thesis
      using np pn Some
      by (simp add: on_timeout_def Let_def closed_def fields)
  qed
qed

lemma closed_step:
  assumes "closed requestId p s" and "concerns requestId p e"
  shows "closed requestId p (step e s) \<and> promises (step e s) p = promises s p"
proof (cases e)
  case (Message h m)
  with assms(2) have rid: "msg_requestId m = requestId"
    and ty: "msg_type m = ''VS_PAGE_CAPTURED'' \<or> msg_type m = ''VS_PONG''"
    by auto
  show ?thesis
    using closed_message [OF assms(1) rid ty, of h] Message assms(1) by simp
next
  case (Timeout q t)
  with assms(2) have q: "q = p" by simp
  show ?thesis
    using closed_timeout [OF assms(1), of t] Timeout q by simp
qed

lemma capture_id_nonempty: "capture_id t \<noteq> []"
  by (simp add: capture_id_def)

lemma ping_id_nonempty: "ping_id t \<noteq> []"
  by (simp add: ping_id_def)

lemma captureCurrentPage_registers:
  assumes "captureCurrentPage h s0 = (p, s)"
  shows "capture_registered (capture_id (now h)) p s"
    and "timers s p = Some (Capture_timer (capture_id (now h)) (now h + 15000))"
    and "p = next_promise s0"
  using assms
  by (auto simp: captureCurrentPage_def capture_registered_def Let_def broadcastToIframes_def)

lemma pingIframe_registers:
  assumes "find hasImage (readyFrames s0) = None" and "pingIframe h s0 = (p, s)"
  shows "ping_registered (ping_id (now h)) p s"
    and "timers s p = Some (Ping_timer (ping_id (now h)) (now h + 5000))"
    and "p = next_promise s0"
  using assms
  by (auto simp: pingIframe_def ping_registered_def Let_def broadcastToIframes_def)

lemma capture_response_failure:
  assumes reg: "capture_registered requestId p s" and ne: "requestId \<noteq> []"
    and m: "msg_type m = ''VS_PAGE_CAPTURED''" "msg_requestId m = requestId" "\<not> msg_success m"
  shows "promises (on_message h m s) p =
           Rejected (if msg_error m = [] then ''Capture failed'' else msg_error m)"
    and "pendingCaptures (on_message h m s) requestId = None"
proof -
  have e: "pendingCaptures s requestId = Some (Capture_entry requestId p)"
    and pe: "promises s p = Pending" and re: "\<not> resolved s p"
    using reg by (simp_all add: capture_registered_def)
  show "promises (on_message h m s) p =
           Rejected (if msg_error m = [] then ''Capture failed'' else msg_error m)"
    using pe re by (simp add: on_message_captured m ne e Let_def fields)
  show "pendingCaptures (on_message h m s) requestId = None"
    using pe re by (simp add: on_message_captured m ne e Let_def fields)
qed

lemma capture_response_success:
  assumes reg: "capture_registered requestId p s" and ne: "requestId \<noteq> []"
    and m: "msg_type m = ''VS_PAGE_CAPTURED''" "msg_requestId m = requestId" "msg_success m"
      "msg_data m = Some obj"
  shows "promises (on_message h m s) p =
           Fulfilled (Stamped \<lparr>content = obj, timestamp = now h,
             pageNumber = current (getCurrentPageInfo h)\<rparr>)"
proof -
  have e: "pendingCaptures s requestId = Some (Capture_entry requestId p)"
    and pe: "promises s p = Pending" and re: "\<not> resolved s p"
    using reg by (simp_all add: capture_registered_def)
  show ?thesis
    using pe re by (simp add: on_message_captured m ne e Let_def fields)
qed

lemma no_entry_ignored:
  assumes "pendingCaptures s (msg_requestId m) = None"
    and "msg_type m = ''VS_PAGE_CAPTURED'' \<or> msg_type m = ''VS_PONG''"
  shows "on_message h m s = s"
  using assms by (auto simp: on_message_captured on_message_pong)

lemma first_capture:
  "captureCurrentPage h initial_state = (0, snd (captureCurrentPage h initial_state))"
  by (simp add: captureCurrentPage_def Let_def initial_state_def)

lemma first_ping:
  "pingIframe h initial_state = (0, snd (pingIframe h initial_state))"
  by (simp add: pingIframe_def Let_def initial_state_def)

lemma well_formed_initial: "well_formed initial_state"
  by (simp add: well_formed_def initial_state_def)

lemma unused_initial: "unused requestId initial_state"
  by (simp add: unused_def initial_state_def)

lemma keeps_refl: "keeps rid p s s"
  by (simp add: keeps_def)

lemma keeps_trans: "keeps rid p s s' \<Longrightarrow> keeps rid p s' s'' \<Longrightarrow> keeps rid p s s''"
  unfolding keeps_def by (intro conjI allI impI) (metis+)

lemma keeps_delete: "r \<noteq> rid \<Longrightarrow> keeps rid p s (delete_pending r s)"
  by (simp add: keeps_def fields)

lemma keeps_clearTimeout: "q \<noteq> p \<Longrightarrow> keeps rid p s (clearTimeout q s)"
  by (simp add: keeps_def fields)

lemma keeps_settle: "q \<noteq> p \<Longrightarrow> keeps rid p s (settle q v s)"
  by (simp add: keeps_def fields)

lemma keeps_resolved: "q \<noteq> p \<Longrightarrow> keeps rid p s (s\<lparr>resolved := (resolved s)(q := b)\<rparr>)"
  by (simp add: keeps_def)

lemma keeps_entry_resolve:
  assumes "promise_of e \<noteq> p" and "\<forall>r' q. e = Capture_entry r' q \<longrightarrow> r' \<noteq> rid"
  shows "keeps rid p s (entry_resolve h e d s)"
proof (cases e)
  case (Ping_entry q)
  with assms have q: "q \<noteq> p" by simp
  show ?thesis
    unfolding Ping_entry entry_resolve.simps
    by (rule keeps_trans [OF keeps_clearTimeout [OF q] keeps_settle [OF q]])
next
  case (Capture_entry r q)
  with assms have q: "q \<noteq> p" and r: "r \<noteq> rid" by simp_all
  have k3: "keeps rid p s (delete_pending r (clearTimeout q (s\<lparr>resolved := (resolved s)(q := True)\<rparr>)))"
    by (rule keeps_trans [OF keeps_trans [OF keeps_resolved [OF q] keeps_clearTimeout [OF q]]
          keeps_delete [OF r]])
  show ?thesis
    unfolding Capture_entry
    using k3 keeps_trans [OF k3 keeps_settle [OF q]] keeps_refl
    by (simp add: Let_def split: option.splits)
qed

lemma keeps_entry_reject:
  assumes "promise_of e \<noteq> p" and "\<forall>r' q. e = Capture_entry r' q \<longrightarrow> r' \<noteq> rid"
  shows "keeps rid p s (entry_reject e err s)"
proof (cases e)
  case (Ping_entry q)
  with assms have q: "q \<noteq> p" by simp
  show ?thesis
    unfolding Ping_entry entry_reject.simps by (rule keeps_settle [OF q])
next
  case (Capture_entry r q)
  with assms have q: "q \<noteq> p" and r: "r \<noteq> rid" by simp_all
  have k3: "keeps rid p s (delete_pending r (clearTimeout q (s\<lparr>resolved := (resolved s)(q := True)\<rparr>)))"
    by (rule keeps_trans [OF keeps_trans [OF keeps_resolved [OF q] keeps_clearTimeout [OF q]]
          keeps_delete [OF r]])
  show ?thesis
    unfolding Capture_entry
    using keeps_trans [OF k3 keeps_settle [OF q]] keeps_refl
    by (simp add: Let_def)
qed

lemma keeps_ready: "keeps rid p s (s\<lparr>readyFrames := fs\<rparr>)"
  by (simp add: keeps_def)

lemma keeps_on_message:
  assumes al: "alone rid p s"
    and r: "msg_requestId m \<noteq> rid \<or>
      (msg_type m \<noteq> ''VS_PAGE_CAPTURED'' \<and> (msg_type m \<noteq> ''VS_PONG'' \<or> \<not> msg_hasImage m))"
  shows "keeps rid p s (on_message h m s)"
proof -
  have entry: "keeps rid p s (entry_resolve h e d (delete_pending (msg_requestId m) s)) \<and>
               keeps rid p s (entry_reject e err (delete_pending (msg_requestId m) s))"
    if e: "pendingCaptures s (msg_requestId m) = Some e" and r': "msg_requestId m \<noteq> rid"
    for e d err
  proof -
    from al e r' have 1: "promise_of e \<noteq> p" and 2: "\<forall>r' q. e = Capture_entry r' q \<longrightarrow> r' \<noteq> rid"
      unfolding alone_def by blast+
    show ?thesis
      using keeps_trans [OF keeps_delete [OF r'] keeps_entry_resolve [OF 1 2]]
        keeps_trans [OF keeps_delete [OF r'] keeps_entry_reject [OF 1 2]]
      by blast
  qed
  consider (captured) "msg_type m = ''VS_PAGE_CAPTURED''" | (pong) "msg_type m = ''VS_PONG''"
    | (ready) "msg_type m = ''VS_IFRAME_READY''"
    | (other) "msg_type m \<noteq> ''VS_PAGE_CAPTURED''" "msg_type m \<noteq> ''VS_PONG''"
        "msg_type m \<noteq> ''VS_IFRAME_READY''"
    by blast
  then show ?thesis
  proof cases
    case captured
    with r have "msg_requestId m \<noteq> rid" by simp
    with captured show ?thesis
      using entry keeps_refl by (simp add: on_message_captured split: option.splits)
  next
    case pong
    with r have "msg_requestId m \<noteq> rid \<or> \<not> msg_hasImage m" by simp
    with pong show ?thesis
      using entry keeps_refl by (auto simp: on_message_pong split: option.splits)
  next
    case ready
    then show ?thesis
      using keeps_ready by (simp add: on_message_ready)
  next
    case other
    then show ?thesis
      using keeps_refl by (simp add: on_message_other)
  qed
qed

lemma keeps_on_timeout:
  assumes al: "alone rid p s" and q: "q \<noteq> p"
  shows "keeps rid p s (on_timeout q t s)"
proof (cases "timers s q")
  case None
  then show ?thesis by (simp add: on_timeout_def keeps_refl)
next
  case (Some tm)
  with al q have r: "request_of tm \<noteq> rid"
    unfolding alone_def by blast
  have k1: "keeps rid p s (s\<lparr>timers := (timers s)(q := None)\<rparr>)"
    using q by (simp add: keeps_def)
  show ?thesis
  proof (cases tm)
    case (Ping_timer r' d)
    with r have r': "r' \<noteq> rid" by simp
    have k2: "keeps rid p s (delete_pending r' (s\<lparr>timers := (timers s)(q := None)\<rparr>))"
      by (rule keeps_trans [OF k1 keeps_delete [OF r']])
    show ?thesis
      using keeps_trans [OF k2 keeps_settle [OF q]] keeps_refl
      by (simp add: on_timeout_def Some Ping_timer Let_def split: option.splits)
  next
    case (Capture_timer r' d)
    with r have r': "r' \<noteq> rid" by simp
    have k2: "keeps rid p s (delete_pending r' (s\<lparr>timers := (timers s)(q := None)\<rparr>))"
      by (rule keeps_trans [OF k1 keeps_delete [OF r']])
    show ?thesis
      using keeps_trans [OF k2 keeps_settle [OF q]] keeps_refl k1
      by (simp add: on_timeout_def Some Capture_timer Let_def)
  qed
qed

lemma keeps_step:
  assumes "alone rid p s" and "unrelated rid p e"
  shows "keeps rid p s (step e s)"
  using assms by (cases e) (simp_all add: keeps_on_message keeps_on_timeout)

lemma alone_keeps:
  assumes "alone rid p s" and "keeps rid p s s'"
  shows "alone rid p s'"
  using assms unfolding alone_def keeps_def by (intro conjI allI impI) (metis+)

lemma keeps_run:
  assumes "alone rid p s" and "\<forall>e\<in>set es. unrelated rid p e"
  shows "keeps rid p s (run es s)"
  using assms
proof (induction es arbitrary: s)
  case Nil
  then show ?case by (simp add: run_def keeps_refl)
next
  case (Cons e es)
  have k: "keeps rid p s (step e s)"
    using Cons.prems by (intro keeps_step) auto
  have "alone rid p (step e s)"
    using Cons.prems(1) k by (rule alone_keeps)
  then have "keeps rid p (step e s) (run es (step e s))"
    using Cons.prems by (intro Cons.IH) auto
  with k show ?case
    by (simp add: run_def keeps_trans)
qed

lemma keepsD:
  assumes "keeps rid p s s'"
  shows "promises s' p = promises s p" and "resolved s' p = resolved s p"
    and "timers s' p = timers s p" and "pendingCaptures s' rid = pendingCaptures s rid"
  using assms unfolding keeps_def by blast+


lemma captureCurrentPage_alone:
  assumes wf: "well_formed s0" and un: "unused (capture_id (now h)) s0"
    and reg: "captureCurrentPage h s0 = (p, s)"
  shows "alone (capture_id (now h)) p s"
proof -
  let ?rid = "capture_id (now h)"
  have p: "p = next_promise s0"
    using reg by (rule captureCurrentPage_registers)
  have pc: "pendingCaptures s = (pendingCaptures s0)(?rid \<mapsto> Capture_entry ?rid p)"
    using reg by (auto simp: captureCurrentPage_def Let_def broadcastToIframes_def)
  have tm: "timers s = (timers s0)(p \<mapsto> Capture_timer ?rid (now h + 15000))"
    using reg by (auto simp: captureCurrentPage_def Let_def broadcastToIframes_def)
  show ?thesis
    unfolding alone_def
  proof (intro conjI allI impI)
    fix r e
    assume "pendingCaptures s r = Some e" and "r \<noteq> ?rid"
    then have e: "pendingCaptures s0 r = Some e"
      by (simp add: pc)
    with wf have "promise_of e < next_promise s0" and c: "\<forall>r' q. e = Capture_entry r' q \<longrightarrow> r' = r"
      unfolding well_formed_def by blast+
    then show "promise_of e \<noteq> p"
      using p by simp
    fix r' q
    assume "e = Capture_entry r' q"
    with c have "r' = r" by blast
    with \<open>r \<noteq> ?rid\<close> show "r' \<noteq> ?rid" by simp
  next
    fix q tm'
    assume "timers s q = Some tm'" and "q \<noteq> p"
    then have "timers s0 q = Some tm'"
      by (simp add: tm)
    with un show "request_of tm' \<noteq> ?rid"
      unfolding unused_def by blast
  qed
qed


lemma pingIframe_alone:
  assumes wf: "well_formed s0" and un: "unused (ping_id (now h)) s0"
    and none: "find hasImage (readyFrames s0) = None"
    and reg: "pingIframe h s0 = (p, s)"
  shows "alone (ping_id (now h)) p s"
proof -
  let ?rid = "ping_id (now h)"
  have p: "p = next_promise s0"
    using none reg by (rule pingIframe_registers)
  have pc: "pendingCaptures s = (pendingCaptures s0)(?rid \<mapsto> Ping_entry p)"
    using none reg by (auto simp: pingIframe_def Let_def broadcastToIframes_def)
  have tm: "timers s = (timers s0)(p \<mapsto> Ping_timer ?rid (now h + 5000))"
    using none reg by (auto simp: pingIframe_def Let_def broadcastToIframes_def)
  show ?thesis
    unfolding alone_def
  proof (intro conjI allI impI)
    fix r e
    assume "pendingCaptures s r = Some e" and "r \<noteq> ?rid"
    then have e: "pendingCaptures s0 r = Some e"
      by (simp add: pc)
    with wf have "promise_of e < next_promise s0" and c: "\<forall>r' q. e = Capture_entry r' q \<longrightarrow> r' = r"
      unfolding well_formed_def by blast+
    then show "promise_of e \<noteq> p"
      using p by simp
    fix r' q
    assume "e = Capture_entry r' q"
    with c have "r' = r" by blast
    with \<open>r \<noteq> ?rid\<close> show "r' \<noteq> ?rid" by simp
  next
    fix q tm'
    assume "timers s q = Some tm'" and "q \<noteq> p"
    then have "timers s0 q = Some tm'"
      by (simp add: tm)
    with un show "request_of tm' \<noteq> ?rid"
      unfolding unused_def by blast
  qed
qed


text \<open>Every reachable state is well formed.\<close>

lemma shrinks_refl: "shrinks s s"
  by (simp add: shrinks_def)

lemma shrinks_trans: "shrinks s s' \<Longrightarrow> shrinks s' s'' \<Longrightarrow> shrinks s s''"
  unfolding shrinks_def by (intro conjI allI impI) (metis+)

lemma shrinks_settle: "shrinks s (settle p v s)"
  by (simp add: shrinks_def settle_def)

lemma shrinks_clearTimeout: "shrinks s (clearTimeout p s)"
  by (simp add: shrinks_def clearTimeout_def)

lemma shrinks_delete: "shrinks s (delete_pending r s)"
  by (simp add: shrinks_def delete_pending_def)

lemma shrinks_resolved: "shrinks s (s\<lparr>resolved := f\<rparr>)"
  by (simp add: shrinks_def)

lemma shrinks_capture_close:
  "shrinks s (delete_pending r (clearTimeout q (s\<lparr>resolved := f\<rparr>)))"
  by (rule shrinks_trans [OF shrinks_trans [OF shrinks_resolved shrinks_clearTimeout] shrinks_delete])

lemma shrinks_entry_resolve: "shrinks s (entry_resolve h e d s)"
proof (cases e)
  case (Ping_entry q)
  show ?thesis
    unfolding Ping_entry entry_resolve.simps
    by (rule shrinks_trans [OF shrinks_clearTimeout shrinks_settle])
next
  case (Capture_entry r q)
  show ?thesis
    unfolding Capture_entry
    using shrinks_capture_close [of s r q] shrinks_trans [OF shrinks_capture_close shrinks_settle] shrinks_refl
    by (simp add: Let_def split: option.splits)
qed

lemma shrinks_entry_reject: "shrinks s (entry_reject e err s)"
proof (cases e)
  case (Ping_entry q)
  show ?thesis
    unfolding Ping_entry entry_reject.simps by (rule shrinks_settle)
next
  case (Capture_entry r q)
  show ?thesis
    unfolding Capture_entry
    using shrinks_trans [OF shrinks_capture_close shrinks_settle] shrinks_refl
    by (simp add: Let_def)
qed

lemma shrinks_on_message: "shrinks s (on_message h m s)"
proof -
  have entry: "shrinks s (entry_resolve h e d (delete_pending r s)) \<and>
               shrinks s (entry_reject e err (delete_pending r s))" for e d err r
    using shrinks_trans [OF shrinks_delete shrinks_entry_resolve]
      shrinks_trans [OF shrinks_delete shrinks_entry_reject] by blast
  have frames: "shrinks s (s\<lparr>readyFrames := fs\<rparr>)" for fs
    by (simp add: shrinks_def)
  consider (captured) "msg_type m = ''VS_PAGE_CAPTURED''" | (pong) "msg_type m = ''VS_PONG''"
    | (ready) "msg_type m = ''VS_IFRAME_READY''"
    | (other) "msg_type m \<noteq> ''VS_PAGE_CAPTURED''" "msg_type m \<noteq> ''VS_PONG''"
        "msg_type m \<noteq> ''VS_IFRAME_READY''"
    by blast
  then show ?thesis
  proof cases
    case captured
    then show ?thesis
      using entry shrinks_refl by (simp add: on_message_captured split: option.splits)
  next
    case pong
    then show ?thesis
      using entry shrinks_refl by (simp add: on_message_pong split: option.splits)
  next
    case ready
    then show ?thesis
      using frames by (simp add: on_message_ready)
  next
    case other
    then show ?thesis
      using shrinks_refl by (simp add: on_message_other)
  qed
qed

lemma shrinks_on_timeout: "shrinks s (on_timeout p t s)"
proof (cases "timers s p")
  case None
  then show ?thesis by (simp add: on_timeout_def shrinks_refl)
next
  case (Some tm)
  have k1: "shrinks s (s\<lparr>timers := (timers s)(p := None)\<rparr>)"
    by (simp add: shrinks_def)
  have k2: "shrinks s (delete_pending r (s\<lparr>timers := (timers s)(p := None)\<rparr>))" for r
    by (rule shrinks_trans [OF k1 shrinks_delete])
  show ?thesis
  proof (cases tm)
    case (Ping_timer r d)
    show ?thesis
      using shrinks_trans [OF k2 shrinks_settle] shrinks_refl
      by (simp add: on_timeout_def Some Ping_timer Let_def split: option.splits)
  next
    case (Capture_timer r d)
    show ?thesis
      using shrinks_trans [OF k2 shrinks_settle] shrinks_refl k1
      by (simp add: on_timeout_def Some Capture_timer Let_def)
  qed
qed

lemma well_formed_shrinks:
  assumes "well_formed s" and "shrinks s s'"
  shows "well_formed s'"
  using assms unfolding well_formed_def shrinks_def by (intro allI impI) metis

lemma well_formed_captureCurrentPage:
  assumes "well_formed s"
  shows "well_formed (snd (captureCurrentPage h s))"
  using assms unfolding well_formed_def
  by (auto simp: captureCurrentPage_def Let_def broadcastToIframes_def less_Suc_eq)

lemma well_formed_pingIframe:
  assumes "well_formed s"
  shows "well_formed (snd (pingIframe h s))"
  using assms unfolding well_formed_def
  by (auto simp: pingIframe_def Let_def broadcastToIframes_def less_Suc_eq split: option.splits)

lemma reachable_well_formed: "reachable s \<Longrightarrow> well_formed s"
proof (induction rule: reachable.induct)
  case start
  show ?case by (rule well_formed_initial)
next
  case (message s h m)
  from message.IH shrinks_on_message show ?case by (rule well_formed_shrinks)
next
  case (timeout s p t)
  from timeout.IH shrinks_on_timeout show ?case by (rule well_formed_shrinks)
next
  case (ping s h)
  from ping.IH show ?case by (rule well_formed_pingIframe)
next
  case (capture s h)
  from capture.IH show ?case by (rule well_formed_captureCurrentPage)
qed

lemma shrinks_step: "shrinks s (step e s)"
  by (cases e) (simp_all add: shrinks_on_message shrinks_on_timeout)

lemma alone_shrinks:
  assumes "alone rid p s" and "shrinks s s'"
  shows "alone rid p s'"
  using assms unfolding alone_def shrinks_def by (intro conjI allI impI) (metis+)

lemma unrelated_or_concerns: "unrelated rid p e \<or> concerns rid p e"
  by (cases e) auto

lemma registered_keeps:
  assumes "registered rid p s" and k: "keeps rid p s s'"
  shows "registered rid p s'"
  using assms(1)
  by (simp add: registered_def ping_registered_def capture_registered_def keepsD [OF k])

lemma closed_keeps:
  assumes "closed rid p s" and k: "keeps rid p s s'"
  shows "closed rid p s'"
  using assms(1) by (simp add: closed_def keepsD [OF k])

text \<open>
  Once a request is closed, with no other entry or timer referring to it, no event changes
  its promise.
\<close>

lemma frozen_step:
  assumes cl: "closed rid p s" and al: "alone rid p s"
  shows "closed rid p (step e s) \<and> alone rid p (step e s) \<and> promises (step e s) p = promises s p"
proof -
  have al': "alone rid p (step e s)"
    using al shrinks_step by (rule alone_shrinks)
  from unrelated_or_concerns [of rid p e]
  have "closed rid p (step e s) \<and> promises (step e s) p = promises s p"
  proof
    assume "unrelated rid p e"
    with al have k: "keeps rid p s (step e s)"
      by (rule keeps_step)
    from closed_keeps [OF cl k] keepsD(1) [OF k] show ?thesis
      by simp
  next
    assume "concerns rid p e"
    with cl show ?thesis
      by (rule closed_step)
  qed
  with al' show ?thesis by simp
qed

lemma frozen_run:
  assumes "closed rid p s" and "alone rid p s"
  shows "closed rid p (run es s) \<and> promises (run es s) p = promises s p"
  using assms
proof (induction es arbitrary: s)
  case Nil
  then show ?case by (simp add: run_def)
next
  case (Cons e es)
  from frozen_step [OF Cons.prems, of e]
  have st: "closed rid p (step e s)" "alone rid p (step e s)" "promises (step e s) p = promises s p"
    by simp_all
  from Cons.IH [OF st(1,2)] st(3) show ?case
    by (simp add: run_def)
qed

lemma registered_alone:
  assumes wf: "well_formed s0" and un: "unused requestId s0"
    and reg: "(find hasImage (readyFrames s0) = None \<and> pingIframe h s0 = (p, s) \<and>
        requestId = ping_id (now h)) \<or>
      (captureCurrentPage h s0 = (p, s) \<and> requestId = capture_id (now h))"
  shows "registered requestId p s \<and> alone requestId p s"
  using reg
proof
  assume a: "find hasImage (readyFrames s0) = None \<and> pingIframe h s0 = (p, s) \<and>
      requestId = ping_id (now h)"
  then have "ping_registered requestId p s"
    using pingIframe_registers(1) [of s0 h p s] by simp
  moreover have "alone requestId p s"
    using a pingIframe_alone [of s0 h p s] wf un by simp
  ultimately show ?thesis by (simp add: registered_def)
next
  assume a: "captureCurrentPage h s0 = (p, s) \<and> requestId = capture_id (now h)"
  then have "capture_registered requestId p s"
    using captureCurrentPage_registers(1) [of h s0 p s] by simp
  moreover have "alone requestId p s"
    using a captureCurrentPage_alone [of s0 h p s] wf un by simp
  ultimately show ?thesis by (simp add: registered_def)
qed

lemma captureCurrentPage_fields:
  "promises (snd (captureCurrentPage h s)) = (promises s)(next_promise s := Pending)"
  "resolved (snd (captureCurrentPage h s)) = (resolved s)(next_promise s := False)"
  "timers (snd (captureCurrentPage h s)) =
     (timers s)(next_promise s \<mapsto> Capture_timer (capture_id (now h)) (now h + 15000))"
  "pendingCaptures (snd (captureCurrentPage h s)) =
     (pendingCaptures s)(capture_id (now h) \<mapsto> Capture_entry (capture_id (now h)) (next_promise s))"
  "next_promise (snd (captureCurrentPage h s)) = Suc (next_promise s)"
  by (simp_all add: captureCurrentPage_def Let_def broadcastToIframes_def)

lemma pingIframe_fields:
  "promises (snd (pingIframe h s)) =
     (promises s)(next_promise s :=
        (case find hasImage (readyFrames s) of
           Some f \<Rightarrow> Fulfilled (Plain (Some (Info f))) | None \<Rightarrow> Pending))"
  "resolved (snd (pingIframe h s)) = resolved s"
  "timers (snd (pingIframe h s)) =
     (case find hasImage (readyFrames s) of
        Some f \<Rightarrow> timers s
      | None \<Rightarrow> (timers s)(next_promise s \<mapsto> Ping_timer (ping_id (now h)) (now h + 5000)))"
  "pendingCaptures (snd (pingIframe h s)) =
     (case find hasImage (readyFrames s) of
        Some f \<Rightarrow> pendingCaptures s
      | None \<Rightarrow> (pendingCaptures s)(ping_id (now h) \<mapsto> Ping_entry (next_promise s)))"
  "next_promise (snd (pingIframe h s)) = Suc (next_promise s)"
  by (simp_all add: pingIframe_def Let_def broadcastToIframes_def split: option.splits)

text \<open>A call under another identifier leaves the request as it is.\<close>

lemma call_same:
  assumes "p < next_promise s" and "elsewhere rid a"
    and "a = Calls_pingIframe h \<or> a = Calls_captureCurrentPage h"
  shows "promises (perform a s) p = promises s p"
    and "resolved (perform a s) p = resolved s p"
    and "timers (perform a s) p = timers s p"
    and "pendingCaptures (perform a s) rid = pendingCaptures s rid"
    and "p < next_promise (perform a s)"
  using assms
  by (auto simp: captureCurrentPage_fields pingIframe_fields split: option.splits)

lemma call_alone:
  assumes al: "alone rid p s" and lt: "p < next_promise s" and el: "elsewhere rid a"
    and call: "a = Calls_pingIframe h \<or> a = Calls_captureCurrentPage h"
  shows "alone rid p (perform a s)"
  unfolding alone_def
proof (intro conjI allI impI)
  fix r e
  assume e: "pendingCaptures (perform a s) r = Some e" and r: "r \<noteq> rid"
  from call e have "pendingCaptures s r = Some e \<or>
      (e = Ping_entry (next_promise s) \<or> e = Capture_entry r (next_promise s))"
    by (auto simp: captureCurrentPage_fields pingIframe_fields split: option.splits if_splits)
  then show "promise_of e \<noteq> p"
  proof
    assume "pendingCaptures s r = Some e"
    with al r show ?thesis unfolding alone_def by blast
  next
    assume "e = Ping_entry (next_promise s) \<or> e = Capture_entry r (next_promise s)"
    with lt show ?thesis by auto
  qed
  fix r' q
  assume c: "e = Capture_entry r' q"
  from call e have "pendingCaptures s r = Some e \<or>
      (e = Ping_entry (next_promise s) \<or> e = Capture_entry r (next_promise s))"
    by (auto simp: captureCurrentPage_fields pingIframe_fields split: option.splits if_splits)
  then show "r' \<noteq> rid"
  proof
    assume "pendingCaptures s r = Some e"
    with al r c show ?thesis unfolding alone_def by blast
  next
    assume "e = Ping_entry (next_promise s) \<or> e = Capture_entry r (next_promise s)"
    with c r show ?thesis by auto
  qed
next
  fix q tm
  assume tm: "timers (perform a s) q = Some tm" and q: "q \<noteq> p"
  from call tm el have "timers s q = Some tm \<or> request_of tm \<noteq> rid"
    by (auto simp: captureCurrentPage_fields pingIframe_fields split: option.splits if_splits)
  then show "request_of tm \<noteq> rid"
  proof
    assume "timers s q = Some tm"
    with al q show ?thesis unfolding alone_def by blast
  qed
qed


text \<open>
  A request that waits (registered, with its timer as armed) or is closed, with no other
  entry or timer referring to it and a promise made earlier, stays so under every activity
  elsewhere.
\<close>

lemma waiting_step:
  assumes wc: "(registered rid p s \<and> timers s p = T) \<or> closed rid p s" and al: "alone rid p s"
  shows "(registered rid p (step e s) \<and> timers (step e s) p = T) \<or> closed rid p (step e s)"
proof -
  from unrelated_or_concerns [of rid p e] show ?thesis
  proof
    assume "unrelated rid p e"
    with al have k: "keeps rid p s (step e s)"
      by (rule keeps_step)
    from wc show ?thesis
      using registered_keeps [OF _ k] closed_keeps [OF _ k] keepsD(3) [OF k] by auto
  next
    assume co: "concerns rid p e"
    from wc show ?thesis
    proof
      assume cl: "closed rid p s"
      from closed_step [OF cl co] show ?thesis by simp
    next
      assume w: "registered rid p s \<and> timers s p = T"
      show ?thesis
      proof (cases e)
        case (Message h m)
        with co have "msg_requestId m = rid"
          and "msg_type m = ''VS_PAGE_CAPTURED'' \<or> msg_type m = ''VS_PONG''"
          by auto
        from registered_message [OF conjunct1 [OF w] this, of h] w Message show ?thesis
          by auto
      next
        case (Timeout q t)
        with co have "q = p" by simp
        with registered_timeout [OF conjunct1 [OF w], of t] w Timeout show ?thesis
          by auto
      qed
    qed
  qed
qed

lemma waiting_perform:
  assumes wc: "(registered rid p s \<and> timers s p = T) \<or> closed rid p s"
    and al: "alone rid p s" and lt: "p < next_promise s" and el: "elsewhere rid a"
  shows "((registered rid p (perform a s) \<and> timers (perform a s) p = T) \<or> closed rid p (perform a s))
       \<and> alone rid p (perform a s) \<and> p < next_promise (perform a s)"
proof (cases "\<exists>e. a = Happens e")
  case True
  then obtain e where a: "a = Happens e" ..
  have "shrinks s (step e s)" by (rule shrinks_step)
  then have "next_promise (step e s) = next_promise s"
    unfolding shrinks_def by blast
  moreover have "alone rid p (step e s)"
    using al shrinks_step by (rule alone_shrinks)
  ultimately show ?thesis
    using waiting_step [OF wc al, of e] lt a by simp
next
  case False
  then obtain h where call: "a = Calls_pingIframe h \<or> a = Calls_captureCurrentPage h"
    by (cases a) auto
  note same = call_same [OF lt el call]
  have "registered rid p s \<Longrightarrow> registered rid p (perform a s)"
    by (simp add: registered_def ping_registered_def capture_registered_def same)
  moreover have "closed rid p s \<Longrightarrow> closed rid p (perform a s)"
    by (simp add: closed_def same)
  moreover have "alone rid p (perform a s)"
    using al lt el call by (rule call_alone)
  ultimately show ?thesis
    using wc same(3,5) by auto
qed

lemma waiting_perform_all:
  assumes "(registered rid p s \<and> timers s p = T) \<or> closed rid p s"
    and "alone rid p s" and "p < next_promise s" and "list_all (elsewhere rid) as"
  shows "((registered rid p (perform_all as s) \<and> timers (perform_all as s) p = T)
            \<or> closed rid p (perform_all as s))
       \<and> alone rid p (perform_all as s) \<and> p < next_promise (perform_all as s)"
  using assms
proof (induction as arbitrary: s)
  case Nil
  then show ?case by (simp add: perform_all_def)
next
  case (Cons a as)
  from Cons.prems(4) have a: "elsewhere rid a" and as: "list_all (elsewhere rid) as"
    by simp_all
  from waiting_perform [OF Cons.prems(1-3) a]
  have "((registered rid p (perform_all as (perform a s)) \<and> timers (perform_all as (perform a s)) p = T)
            \<or> closed rid p (perform_all as (perform a s)))
       \<and> alone rid p (perform_all as (perform a s)) \<and> p < next_promise (perform_all as (perform a s))"
    using as by (intro Cons.IH) simp_all
  then show ?case by (simp add: perform_all_def)
qed

lemma frozen_perform:
  assumes cl: "closed rid p s" and al: "alone rid p s" and lt: "p < next_promise s"
    and el: "elsewhere rid a"
  shows "promises (perform a s) p = promises s p"
proof (cases "\<exists>e. a = Happens e")
  case True
  then obtain e where a: "a = Happens e" ..
  from frozen_step [OF cl al, of e] a show ?thesis by simp
next
  case False
  then obtain h where call: "a = Calls_pingIframe h \<or> a = Calls_captureCurrentPage h"
    by (cases a) auto
  from call_same(1) [OF lt el call] show ?thesis .
qed

lemma frozen_perform_all:
  assumes "closed rid p s" and "alone rid p s" and "p < next_promise s"
    and "list_all (elsewhere rid) as"
  shows "closed rid p (perform_all as s) \<and> promises (perform_all as s) p = promises s p"
  using assms
proof (induction as arbitrary: s)
  case Nil
  then show ?case by (simp add: perform_all_def)
next
  case (Cons a as)
  from Cons.prems(4) have a: "elsewhere rid a" and as: "list_all (elsewhere rid) as"
    by simp_all
  have fr: "promises (perform a s) p = promises s p"
    using Cons.prems(1-3) a by (rule frozen_perform)
  have "closed rid p s \<or> closed rid p s" using Cons.prems(1) by simp
  then have "(registered rid p s \<and> timers s p = None) \<or> closed rid p s" by simp
  from waiting_perform [OF this Cons.prems(2,3) a]
  have st: "closed rid p (perform a s)" "alone rid p (perform a s)" "p < next_promise (perform a s)"
    using Cons.prems(1)
    by (auto simp: registered_def ping_registered_def capture_registered_def)
  from Cons.IH [OF st as] fr show ?case
    by (simp add: perform_all_def)
qed

text \<open>What the first settling response and the timer do to a request that waits.\<close>

lemma waiting_response:
  assumes reg: "registered rid p s" and ne: "rid \<noteq> []"
    and rid: "msg_requestId m = rid"
    and ty: "msg_type m = ''VS_PAGE_CAPTURED'' \<or> (msg_type m = ''VS_PONG'' \<and> msg_hasImage m)"
  shows "pendingCaptures (on_message h m s) rid = None"
    and "msg_type m = ''VS_PONG'' \<or> \<not> msg_success m \<or> msg_data m \<noteq> None \<Longrightarrow>
         promises (on_message h m s) p \<noteq> Pending"
proof -
  from reg consider (ping) "ping_registered rid p s" | (capture) "capture_registered rid p s"
    unfolding registered_def by blast
  then have "pendingCaptures (on_message h m s) rid = None \<and>
     (msg_type m = ''VS_PONG'' \<or> \<not> msg_success m \<or> msg_data m \<noteq> None \<longrightarrow>
         promises (on_message h m s) p \<noteq> Pending)"
  proof cases
    case ping
    then have e: "pendingCaptures s rid = Some (Ping_entry p)" and pe: "promises s p = Pending"
      by (simp_all add: ping_registered_def)
    from ty show ?thesis
    proof
      assume "msg_type m = ''VS_PAGE_CAPTURED''"
      then show ?thesis
        using pe ne by (simp add: on_message_captured rid e fields)
    next
      assume "msg_type m = ''VS_PONG'' \<and> msg_hasImage m"
      then show ?thesis
        using pe ne by (simp add: on_message_pong rid e fields)
    qed
  next
    case capture
    then have e: "pendingCaptures s rid = Some (Capture_entry rid p)"
      and pe: "promises s p = Pending" and re: "\<not> resolved s p"
      by (simp_all add: capture_registered_def)
    from ty show ?thesis
    proof
      assume "msg_type m = ''VS_PAGE_CAPTURED''"
      then show ?thesis
        using pe re ne by (auto simp: on_message_captured rid e fields Let_def split: option.splits)
    next
      assume "msg_type m = ''VS_PONG'' \<and> msg_hasImage m"
      then show ?thesis
        using pe re ne by (simp add: on_message_pong rid e fields Let_def)
    qed
  qed
  then show "pendingCaptures (on_message h m s) rid = None"
    and "msg_type m = ''VS_PONG'' \<or> \<not> msg_success m \<or> msg_data m \<noteq> None \<Longrightarrow>
         promises (on_message h m s) p \<noteq> Pending"
    by simp_all
qed

lemma waiting_timer:
  assumes reg: "registered rid p s" and tm: "timers s p = Some T"
  shows "due T \<le> t \<Longrightarrow> pendingCaptures (on_timeout p t s) rid = None \<and>
           promises (on_timeout p t s) p \<noteq> Pending"
    and "t < due T \<Longrightarrow> on_timeout p t s = s"
proof -
  show "t < due T \<Longrightarrow> on_timeout p t s = s"
    by (simp add: on_timeout_def tm)
  assume late: "due T \<le> t"
  from reg consider (ping) "ping_registered rid p s" | (capture) "capture_registered rid p s"
    unfolding registered_def by blast
  then show "pendingCaptures (on_timeout p t s) rid = None \<and>
           promises (on_timeout p t s) p \<noteq> Pending"
  proof cases
    case ping
    with tm obtain d where T: "T = Ping_timer rid d" and pe: "promises s p = Pending"
      by (auto simp: ping_registered_def split: timer.splits)
    show ?thesis
      using pe late by (simp add: on_timeout_def tm T Let_def fields split: option.splits)
  next
    case capture
    with tm obtain d where T: "T = Capture_timer rid d" and pe: "promises s p = Pending"
      and re: "\<not> resolved s p"
      by (auto simp: capture_registered_def split: timer.splits)
    show ?thesis
      using pe re late by (simp add: on_timeout_def tm T Let_def fields)
  qed
qed


lemma registration:
  assumes wf: "well_formed s0" and un: "unused requestId s0"
    and reg: "(find hasImage (readyFrames s0) = None \<and> pingIframe h s0 = (p, s) \<and>
        requestId = ping_id (now h) \<and> d = now h + 5000) \<or>
      (captureCurrentPage h s0 = (p, s) \<and> requestId = capture_id (now h) \<and> d = now h + 15000)"
  shows "registered requestId p s" and "alone requestId p s" and "p < next_promise s"
    and "requestId \<noteq> []" and "\<exists>T. timers s p = Some T \<and> due T = d"
proof -
  from reg have reg': "(find hasImage (readyFrames s0) = None \<and> pingIframe h s0 = (p, s) \<and>
        requestId = ping_id (now h)) \<or>
      (captureCurrentPage h s0 = (p, s) \<and> requestId = capture_id (now h))"
    by blast
  from registered_alone [OF wf un reg']
  show "registered requestId p s" and "alone requestId p s"
    by simp_all
  from reg show "requestId \<noteq> []"
    by (auto simp: ping_id_def capture_id_def)
  from reg show "p < next_promise s"
  proof
    assume a: "find hasImage (readyFrames s0) = None \<and> pingIframe h s0 = (p, s) \<and>
        requestId = ping_id (now h) \<and> d = now h + 5000"
    then have "p = next_promise s0"
      using pingIframe_registers(3) [of s0 h p s] by simp
    moreover from a have "s = snd (pingIframe h s0)" by simp
    ultimately show ?thesis by (simp add: pingIframe_fields)
  next
    assume a: "captureCurrentPage h s0 = (p, s) \<and> requestId = capture_id (now h) \<and>
        d = now h + 15000"
    then have "p = next_promise s0"
      using captureCurrentPage_registers(3) [of h s0 p s] by simp
    moreover from a have "s = snd (captureCurrentPage h s0)" by simp
    ultimately show ?thesis by (simp add: captureCurrentPage_fields)
  qed
  from reg show "\<exists>T. timers s p = Some T \<and> due T = d"
  proof
    assume a: "find hasImage (readyFrames s0) = None \<and> pingIframe h s0 = (p, s) \<and>
        requestId = ping_id (now h) \<and> d = now h + 5000"
    then show ?thesis
      using pingIframe_registers(2) [of s0 h p s] by simp
  next
    assume a: "captureCurrentPage h s0 = (p, s) \<and> requestId = capture_id (now h) \<and>
        d = now h + 15000"
    then show ?thesis
      using captureCurrentPage_registers(2) [of h s0 p s] by simp
  qed
qed

text \<open>
  C2, as the code has it. A request is registered by \<^verbatim>\<open>pingIframe\<close> or by
  \<^verbatim>\<open>captureCurrentPage\<close>, in a well-formed state, under an identifier that no waiting
  request carries and no later call takes (the identifiers are made of \<^verbatim>\<open>Date.now()\<close>,
  so two calls in one millisecond share theirs). Whatever messages arrive, whatever timers
  fire and whatever other calls are made, in whatever order:
  \<^item> a settled promise means the entry is gone;
  \<^item> while the entry is there, the first settling response (a message with the identifier
    that is of type \<^verbatim>\<open>VS_PAGE_CAPTURED\<close>, or of type \<^verbatim>\<open>VS_PONG\<close> and reports an
    image) removes it, and settles the promise unless it is a capture response flagged
    successful that brings no object; a pong with the identifier that reports no image
    changes nothing; the timer, fired when it is due (5000 ms after a probe, 15000 ms
    after a capture call), removes the entry and settles the promise, and fired earlier
    it changes nothing;
  \<^item> once the entry is gone, nothing that follows changes the promise or brings the entry
    back.

  So the request is resolved or rejected at most once, by the first settling response or
  timeout, which removes its entry, and later responses and timeouts for it have no effect.
\<close>

theorem settled_at_most_once:
  assumes wf: "well_formed s0" and un: "unused requestId s0"
    and reg: "(find hasImage (readyFrames s0) = None \<and> pingIframe h s0 = (p, s) \<and>
        requestId = ping_id (now h) \<and> d = now h + 5000) \<or>
      (captureCurrentPage h s0 = (p, s) \<and> requestId = capture_id (now h) \<and> d = now h + 15000)"
    and as1: "list_all (elsewhere requestId) as1" and as2: "list_all (elsewhere requestId) as2"
    and s1: "s1 = perform_all as1 s"
  shows "(promises s1 p \<noteq> Pending \<longrightarrow> pendingCaptures s1 requestId = None)
       \<and> (pendingCaptures s1 requestId \<noteq> None \<longrightarrow>
            (msg_requestId m = requestId \<and>
             (msg_type m = ''VS_PAGE_CAPTURED'' \<or> (msg_type m = ''VS_PONG'' \<and> msg_hasImage m)) \<longrightarrow>
               pendingCaptures (on_message h' m s1) requestId = None \<and>
               (msg_type m = ''VS_PONG'' \<or> \<not> msg_success m \<or> msg_data m \<noteq> None \<longrightarrow>
                  promises (on_message h' m s1) p \<noteq> Pending))
          \<and> (msg_requestId m = requestId \<and> msg_type m = ''VS_PONG'' \<and> \<not> msg_hasImage m \<longrightarrow>
               on_message h' m s1 = s1)
          \<and> (d \<le> t \<longrightarrow>
               pendingCaptures (on_timeout p t s1) requestId = None \<and>
               promises (on_timeout p t s1) p \<noteq> Pending)
          \<and> (t < d \<longrightarrow> on_timeout p t s1 = s1))
       \<and> (pendingCaptures s1 requestId = None \<longrightarrow>
            pendingCaptures (perform_all as2 s1) requestId = None \<and>
            promises (perform_all as2 s1) p = promises s1 p)"
proof -
  note start = registration [OF wf un reg]
  from start(5) obtain T where T: "timers s p = Some T" and d: "due T = d"
    by blast
  have "(registered requestId p s \<and> timers s p = Some T) \<or> closed requestId p s"
    using start(1) T by simp
  from waiting_perform_all [OF this start(2,3) as1]
  have inv: "(registered requestId p s1 \<and> timers s1 p = Some T) \<or> closed requestId p s1"
    and al: "alone requestId p s1" and lt: "p < next_promise s1"
    by (simp_all add: s1)
  have waits: "registered requestId p s1 \<Longrightarrow>
      promises s1 p = Pending \<and> pendingCaptures s1 requestId \<noteq> None"
    by (auto simp: registered_def ping_registered_def capture_registered_def)
  have a: "promises s1 p \<noteq> Pending \<longrightarrow> pendingCaptures s1 requestId = None"
    using inv waits by (auto simp: closed_def)
  have b: "pendingCaptures s1 requestId \<noteq> None \<longrightarrow>
            (msg_requestId m = requestId \<and>
             (msg_type m = ''VS_PAGE_CAPTURED'' \<or> (msg_type m = ''VS_PONG'' \<and> msg_hasImage m)) \<longrightarrow>
               pendingCaptures (on_message h' m s1) requestId = None \<and>
               (msg_type m = ''VS_PONG'' \<or> \<not> msg_success m \<or> msg_data m \<noteq> None \<longrightarrow>
                  promises (on_message h' m s1) p \<noteq> Pending))
          \<and> (msg_requestId m = requestId \<and> msg_type m = ''VS_PONG'' \<and> \<not> msg_hasImage m \<longrightarrow>
               on_message h' m s1 = s1)
          \<and> (d \<le> t \<longrightarrow>
               pendingCaptures (on_timeout p t s1) requestId = None \<and>
               promises (on_timeout p t s1) p \<noteq> Pending)
          \<and> (t < d \<longrightarrow> on_timeout p t s1 = s1)"
  proof
    assume "pendingCaptures s1 requestId \<noteq> None"
    with inv have r: "registered requestId p s1" and tm: "timers s1 p = Some T"
      by (auto simp: closed_def)
    have 1: "msg_requestId m = requestId \<and>
             (msg_type m = ''VS_PAGE_CAPTURED'' \<or> (msg_type m = ''VS_PONG'' \<and> msg_hasImage m)) \<longrightarrow>
               pendingCaptures (on_message h' m s1) requestId = None \<and>
               (msg_type m = ''VS_PONG'' \<or> \<not> msg_success m \<or> msg_data m \<noteq> None \<longrightarrow>
                  promises (on_message h' m s1) p \<noteq> Pending)"
      using waiting_response [OF r start(4), of m h'] by auto
    have 2: "msg_requestId m = requestId \<and> msg_type m = ''VS_PONG'' \<and> \<not> msg_hasImage m \<longrightarrow>
               on_message h' m s1 = s1"
      by (simp add: on_message_pong)
    have 3: "d \<le> t \<longrightarrow>
               pendingCaptures (on_timeout p t s1) requestId = None \<and>
               promises (on_timeout p t s1) p \<noteq> Pending"
      using waiting_timer(1) [OF r tm, of t] d by simp
    have 4: "t < d \<longrightarrow> on_timeout p t s1 = s1"
      using waiting_timer(2) [OF r tm, of t] d by simp
    from 1 2 3 4 show "(msg_requestId m = requestId \<and>
             (msg_type m = ''VS_PAGE_CAPTURED'' \<or> (msg_type m = ''VS_PONG'' \<and> msg_hasImage m)) \<longrightarrow>
               pendingCaptures (on_message h' m s1) requestId = None \<and>
               (msg_type m = ''VS_PONG'' \<or> \<not> msg_success m \<or> msg_data m \<noteq> None \<longrightarrow>
                  promises (on_message h' m s1) p \<noteq> Pending))
          \<and> (msg_requestId m = requestId \<and> msg_type m = ''VS_PONG'' \<and> \<not> msg_hasImage m \<longrightarrow>
               on_message h' m s1 = s1)
          \<and> (d \<le> t \<longrightarrow>
               pendingCaptures (on_timeout p t s1) requestId = None \<and>
               promises (on_timeout p t s1) p \<noteq> Pending)
          \<and> (t < d \<longrightarrow> on_timeout p t s1 = s1)"
      by (intro conjI)
  qed
  have c: "pendingCaptures s1 requestId = None \<longrightarrow>
            pendingCaptures (perform_all as2 s1) requestId = None \<and>
            promises (perform_all as2 s1) p = promises s1 p"
  proof
    assume "pendingCaptures s1 requestId = None"
    with inv waits have "closed requestId p s1" by auto
    from frozen_perform_all [OF this al lt as2]
    show "pendingCaptures (perform_all as2 s1) requestId = None \<and>
            promises (perform_all as2 s1) p = promises s1 p"
      by (simp add: closed_def)
  qed
  from a b c show ?thesis by (intro conjI)
qed


theorem settled_at_most_once_witness:
  "pendingCaptures
     (on_timeout 0 16000
        (perform_all
           [Calls_pingIframe \<lparr>now = 1100, page_input = Some 7, page_total = None\<rparr>,
            Happens (Message \<lparr>now = 1200, page_input = Some 7, page_total = None\<rparr>
              (empty_message\<lparr>msg_type := ''VS_PONG'', msg_requestId := capture_id 1000\<rparr>))]
           (snd (captureCurrentPage \<lparr>now = 1000, page_input = Some 7, page_total = None\<rparr> initial_state))))
     (capture_id 1000) = None
   \<and> promises
     (on_timeout 0 16000
        (perform_all
           [Calls_pingIframe \<lparr>now = 1100, page_input = Some 7, page_total = None\<rparr>,
            Happens (Message \<lparr>now = 1200, page_input = Some 7, page_total = None\<rparr>
              (empty_message\<lparr>msg_type := ''VS_PONG'', msg_requestId := capture_id 1000\<rparr>))]
           (snd (captureCurrentPage \<lparr>now = 1000, page_input = Some 7, page_total = None\<rparr> initial_state))))
     0 \<noteq> Pending
   \<and> pendingCaptures
     (on_message \<lparr>now = 1300, page_input = Some 7, page_total = None\<rparr>
        (empty_message\<lparr>msg_type := ''VS_PAGE_CAPTURED'', msg_requestId := capture_id 1000,
           msg_error := ''Image load timeout''\<rparr>)
        (perform_all
           [Calls_pingIframe \<lparr>now = 1100, page_input = Some 7, page_total = None\<rparr>,
            Happens (Message \<lparr>now = 1200, page_input = Some 7, page_total = None\<rparr>
              (empty_message\<lparr>msg_type := ''VS_PONG'', msg_requestId := capture_id 1000\<rparr>))]
           (snd (captureCurrentPage \<lparr>now = 1000, page_input = Some 7, page_total = None\<rparr> initial_state))))
     (capture_id 1000) = None"
proof -
  let ?h = "\<lparr>now = 1000, page_input = Some 7, page_total = None\<rparr>"
  let ?s = "snd (captureCurrentPage ?h initial_state)"
  let ?as = "[Calls_pingIframe \<lparr>now = 1100, page_input = Some 7, page_total = None\<rparr>,
            Happens (Message \<lparr>now = 1200, page_input = Some 7, page_total = None\<rparr>
              (empty_message\<lparr>msg_type := ''VS_PONG'', msg_requestId := capture_id 1000\<rparr>))]"
  let ?m = "empty_message\<lparr>msg_type := ''VS_PAGE_CAPTURED'', msg_requestId := capture_id 1000,
           msg_error := ''Image load timeout''\<rparr>"
  let ?h' = "\<lparr>now = 1300, page_input = Some 7, page_total = None\<rparr>"
  have reg: "(find hasImage (readyFrames initial_state) = None \<and>
        pingIframe ?h initial_state = (0, ?s) \<and> capture_id 1000 = ping_id (now ?h) \<and>
        16000 = now ?h + 5000) \<or>
      (captureCurrentPage ?h initial_state = (0, ?s) \<and> capture_id 1000 = capture_id (now ?h) \<and>
        16000 = now ?h + 15000)"
    using first_capture [of ?h] by simp
  have as: "list_all (elsewhere (capture_id 1000)) ?as"
    by (simp add: ping_id_def capture_id_def)
  have nil: "list_all (elsewhere (capture_id 1000)) []"
    by simp
  have waits: "pendingCaptures (perform_all ?as ?s) (capture_id 1000) \<noteq> None"
    by (simp add: perform_all_def captureCurrentPage_fields pingIframe_fields on_message_pong
        empty_message_def initial_state_def ping_id_def capture_id_def
        split: option.splits)
  from settled_at_most_once [OF well_formed_initial unused_initial reg as nil refl,
      of ?m ?h' 16000] waits
  show ?thesis
    by (simp add: empty_message_def)
qed

text \<open>
  C2 as the claim states it fails in two places. A pong that carries the identifier of a
  pending probe but reports no image is a matching response that arrives first, and the
  listener leaves the entry where it is. And two capture calls made in the same millisecond
  share their identifier: the response fulfils the promise of the second call and removes
  the entry, and the timer of the first call, firing later for the same identifier, still
  rejects the promise of the first call.
\<close>

theorem identifier_settled_twice:
  "pendingCaptures
     (on_message \<lparr>now = 1200, page_input = Some 7, page_total = None\<rparr>
        (empty_message\<lparr>msg_type := ''VS_PONG'', msg_requestId := ping_id 1000\<rparr>)
        (snd (pingIframe \<lparr>now = 1000, page_input = Some 7, page_total = None\<rparr> initial_state)))
     (ping_id 1000) = Some (Ping_entry 0)
   \<and> promises
     (on_message \<lparr>now = 1200, page_input = Some 7, page_total = None\<rparr>
        (empty_message\<lparr>msg_type := ''VS_PAGE_CAPTURED'', msg_requestId := capture_id 1000,
           msg_success := True,
           msg_data := Some (Image \<lparr>data = ''jpeg'', width = 800, height = 1000\<rparr>)\<rparr>)
        (snd (captureCurrentPage \<lparr>now = 1000, page_input = Some 7, page_total = None\<rparr>
           (snd (captureCurrentPage \<lparr>now = 1000, page_input = Some 7, page_total = None\<rparr>
              initial_state)))))
     1 = Fulfilled (Stamped \<lparr>content = Image \<lparr>data = ''jpeg'', width = 800, height = 1000\<rparr>,
           timestamp = 1200, pageNumber = 7\<rparr>)
   \<and> pendingCaptures
     (on_message \<lparr>now = 1200, page_input = Some 7, page_total = None\<rparr>
        (empty_message\<lparr>msg_type := ''VS_PAGE_CAPTURED'', msg_requestId := capture_id 1000,
           msg_success := True,
           msg_data := Some (Image \<lparr>data = ''jpeg'', width = 800, height = 1000\<rparr>)\<rparr>)
        (snd (captureCurrentPage \<lparr>now = 1000, page_input = Some 7, page_total = None\<rparr>
           (snd (captureCurrentPage \<lparr>now = 1000, page_input = Some 7, page_total = None\<rparr>
              initial_state)))))
     (capture_id 1000) = None
   \<and> promises
     (on_timeout 0 16000
        (on_message \<lparr>now = 1200, page_input = Some 7, page_total = None\<rparr>
           (empty_message\<lparr>msg_type := ''VS_PAGE_CAPTURED'', msg_requestId := capture_id 1000,
              msg_success := True,
              msg_data := Some (Image \<lparr>data = ''jpeg'', width = 800, height = 1000\<rparr>)\<rparr>)
           (snd (captureCurrentPage \<lparr>now = 1000, page_input = Some 7, page_total = None\<rparr>
              (snd (captureCurrentPage \<lparr>now = 1000, page_input = Some 7, page_total = None\<rparr>
                 initial_state))))))
     0 = Rejected ''Capture timeout''"
  by (simp add: on_message_captured on_message_pong on_timeout_def captureCurrentPage_fields
      pingIframe_fields empty_message_def initial_state_def capture_id_nonempty ping_id_nonempty
      fields Let_def getCurrentPageInfo_def)

text \<open>
  C7. A capture call is made in a well-formed state under an unused identifier. As long as
  no matching response arrives, whatever other messages arrive and other timers fire, the
  request is still pending; its timer does nothing before 15000 ms have passed, and when it fires
  after that the promise is rejected with "Capture timeout", a message of its own, and the
  entry is removed from the pending map.
\<close>

theorem capture_timeout:
  assumes wf: "well_formed s0" and un: "unused (capture_id (now h)) s0"
    and reg: "captureCurrentPage h s0 = (p, s)"
    and es: "\<forall>e\<in>set es. unrelated (capture_id (now h)) p e"
  shows "promises (run es s) p = Pending
       \<and> pendingCaptures (run es s) (capture_id (now h)) \<noteq> None
       \<and> (t < now h + 15000 \<longrightarrow> on_timeout p t (run es s) = run es s)
       \<and> (now h + 15000 \<le> t \<longrightarrow>
            promises (on_timeout p t (run es s)) p = Rejected ''Capture timeout'' \<and>
            pendingCaptures (on_timeout p t (run es s)) (capture_id (now h)) = None)
       \<and> ''Capture timeout'' \<noteq> probe_failure"
proof -
  let ?rid = "capture_id (now h)"
  let ?s = "run es s"
  have r0: "capture_registered ?rid p s"
    and t0: "timers s p = Some (Capture_timer ?rid (now h + 15000))"
    using reg by (rule captureCurrentPage_registers)+
  have k: "keeps ?rid p s ?s"
    using captureCurrentPage_alone [OF wf un reg] es by (rule keeps_run)
  have pr: "promises ?s p = Pending" and re: "\<not> resolved ?s p"
    and pc: "pendingCaptures ?s ?rid = Some (Capture_entry ?rid p)"
    and tm: "timers ?s p = Some (Capture_timer ?rid (now h + 15000))"
    using r0 t0 by (simp_all add: keepsD [OF k] capture_registered_def)
  have early: "t < now h + 15000 \<longrightarrow> on_timeout p t ?s = ?s"
    by (simp add: on_timeout_def tm)
  have late: "now h + 15000 \<le> t \<longrightarrow>
      promises (on_timeout p t ?s) p = Rejected ''Capture timeout'' \<and>
      pendingCaptures (on_timeout p t ?s) ?rid = None"
    using pr re by (simp add: on_timeout_def tm Let_def fields)
  have "''Capture timeout'' \<noteq> probe_failure"
    by (simp add: probe_failure_def)
  with pr pc early late show ?thesis by simp
qed

theorem capture_timeout_witness:
  "promises
     (on_timeout 0 16000
        (run [Message \<lparr>now = 1100, page_input = None, page_total = None\<rparr>
                (empty_message\<lparr>msg_type := ''VS_IFRAME_READY'', msg_url := ''https://cdn/frame''\<rparr>),
              Message \<lparr>now = 1200, page_input = None, page_total = None\<rparr>
                (empty_message\<lparr>msg_type := ''VS_PAGE_CAPTURED'', msg_requestId := ''stale'',
                   msg_success := True\<rparr>)]
           (snd (captureCurrentPage \<lparr>now = 1000, page_input = None, page_total = None\<rparr> initial_state))))
     0 = Rejected ''Capture timeout''
   \<and> pendingCaptures
     (on_timeout 0 16000
        (run [Message \<lparr>now = 1100, page_input = None, page_total = None\<rparr>
                (empty_message\<lparr>msg_type := ''VS_IFRAME_READY'', msg_url := ''https://cdn/frame''\<rparr>),
              Message \<lparr>now = 1200, page_input = None, page_total = None\<rparr>
                (empty_message\<lparr>msg_type := ''VS_PAGE_CAPTURED'', msg_requestId := ''stale'',
                   msg_success := True\<rparr>)]
           (snd (captureCurrentPage \<lparr>now = 1000, page_input = None, page_total = None\<rparr> initial_state))))
     (capture_id 1000) = None"
proof -
  let ?h = "\<lparr>now = 1000, page_input = None, page_total = None\<rparr>"
  let ?es = "[Message \<lparr>now = 1100, page_input = None, page_total = None\<rparr>
                (empty_message\<lparr>msg_type := ''VS_IFRAME_READY'', msg_url := ''https://cdn/frame''\<rparr>),
              Message \<lparr>now = 1200, page_input = None, page_total = None\<rparr>
                (empty_message\<lparr>msg_type := ''VS_PAGE_CAPTURED'', msg_requestId := ''stale'',
                   msg_success := True\<rparr>)]"
  have un: "unused (capture_id (now ?h)) initial_state"
    by (rule unused_initial)
  have es: "\<forall>e\<in>set ?es. unrelated (capture_id (now ?h)) 0 e"
    by (simp add: empty_message_def capture_id_def)
  from capture_timeout [OF well_formed_initial un first_capture [of ?h] es, of 16000]
  show ?thesis by simp
qed

text \<open>
  A capture response that is flagged unsuccessful, or that is flagged successful and brings
  an object, settles the pending request it matches and removes the entry, and a later
  capture response under the same identifier leaves the state as it is.
\<close>

lemma response_with_payload_settles:
  assumes reg: "capture_registered requestId p s" and ne: "requestId \<noteq> []"
    and m: "msg_type m = ''VS_PAGE_CAPTURED''" "msg_requestId m = requestId"
    and payload: "msg_success m \<Longrightarrow> msg_data m = Some obj"
    and m': "msg_type m' = ''VS_PAGE_CAPTURED''" "msg_requestId m' = requestId"
  shows "promises (on_message h m s) p =
           (if msg_success m
            then Fulfilled (Stamped \<lparr>content = obj, timestamp = now h,
                   pageNumber = current (getCurrentPageInfo h)\<rparr>)
            else Rejected (if msg_error m = [] then ''Capture failed'' else msg_error m))"
    and "pendingCaptures (on_message h m s) requestId = None"
    and "on_message h' m' (on_message h m s) = on_message h m s"
proof -
  show "promises (on_message h m s) p =
           (if msg_success m
            then Fulfilled (Stamped \<lparr>content = obj, timestamp = now h,
                   pageNumber = current (getCurrentPageInfo h)\<rparr>)
            else Rejected (if msg_error m = [] then ''Capture failed'' else msg_error m))"
  proof (cases "msg_success m")
    case True
    with payload have "msg_data m = Some obj" by simp
    from capture_response_success [OF reg ne m True this, of h] True show ?thesis
      by simp
  next
    case False
    from capture_response_failure(1) [OF reg ne m False, of h] False show ?thesis
      by simp
  qed
  have "registered requestId p s"
    using reg by (simp add: registered_def)
  then show gone: "pendingCaptures (on_message h m s) requestId = None"
    using ne m(2) by (rule waiting_response(1)) (simp add: m(1))
  show "on_message h' m' (on_message h m s) = on_message h m s"
    using gone m' by (intro no_entry_ignored) simp_all
qed

text \<open>
  C10. The claim fails for a capture response that is flagged successful and brings no
  object. A capture call is made at time 1000, and the message
  \<^verbatim>\<open>{type: 'VS_PAGE_CAPTURED', requestId: 'capture_1000', success: true}\<close> arrives. The
  listener deletes the entry and calls the \<^verbatim>\<open>resolve\<close> continuation, which sets its flag,
  clears the timer and throws at \<^verbatim>\<open>data.timestamp\<close>: the entry is gone, the timer is gone,
  and whatever messages and timers follow, the promise stays pending. The first matching
  response has not settled the request, and nothing will.
\<close>

theorem success_without_data_never_settles:
  "pendingCaptures
     (on_message \<lparr>now = 1200, page_input = Some 7, page_total = None\<rparr>
        (empty_message\<lparr>msg_type := ''VS_PAGE_CAPTURED'', msg_requestId := capture_id 1000,
           msg_success := True\<rparr>)
        (snd (captureCurrentPage \<lparr>now = 1000, page_input = Some 7, page_total = None\<rparr> initial_state)))
     (capture_id 1000) = None
   \<and> timers
     (on_message \<lparr>now = 1200, page_input = Some 7, page_total = None\<rparr>
        (empty_message\<lparr>msg_type := ''VS_PAGE_CAPTURED'', msg_requestId := capture_id 1000,
           msg_success := True\<rparr>)
        (snd (captureCurrentPage \<lparr>now = 1000, page_input = Some 7, page_total = None\<rparr> initial_state)))
     0 = None
   \<and> promises
     (run es
        (on_message \<lparr>now = 1200, page_input = Some 7, page_total = None\<rparr>
           (empty_message\<lparr>msg_type := ''VS_PAGE_CAPTURED'', msg_requestId := capture_id 1000,
              msg_success := True\<rparr>)
           (snd (captureCurrentPage \<lparr>now = 1000, page_input = Some 7, page_total = None\<rparr> initial_state))))
     0 = Pending"
proof -
  let ?h = "\<lparr>now = 1000, page_input = Some 7, page_total = None\<rparr>"
  let ?s = "snd (captureCurrentPage ?h initial_state)"
  let ?h' = "\<lparr>now = 1200, page_input = Some 7, page_total = None\<rparr>"
  let ?m = "empty_message\<lparr>msg_type := ''VS_PAGE_CAPTURED'', msg_requestId := capture_id 1000,
           msg_success := True\<rparr>"
  let ?a = "on_message ?h' ?m ?s"
  have 1: "pendingCaptures ?a (capture_id 1000) = None"
    and 2: "timers ?a 0 = None" and 3: "promises ?a 0 = Pending"
    by (simp_all add: on_message_captured captureCurrentPage_fields empty_message_def
        initial_state_def capture_id_nonempty fields Let_def)
  have "alone (capture_id 1000) 0 ?s"
    using captureCurrentPage_alone [OF well_formed_initial _ first_capture [of ?h]]
    by (simp add: unused_initial)
  then have al: "alone (capture_id 1000) 0 ?a"
    using shrinks_on_message by (rule alone_shrinks)
  have "closed (capture_id 1000) 0 ?a"
    using 1 2 by (simp add: closed_def)
  from frozen_run [OF this al, of es] 3 have "promises (run es ?a) 0 = Pending"
    by simp
  with 1 2 show ?thesis by simp
qed

text \<open>
  C3. Whenever some recorded announcement has \<open>hasImage\<close> true, \<^verbatim>\<open>pingIframe\<close>
  returns a promise that is already fulfilled with the first such announcement of the
  list, and it broadcasts nothing, registers no entry and arms no timer.
\<close>

theorem pingIframe_short_circuit:
  assumes "\<exists>f\<in>set (readyFrames s). hasImage f"
  shows "\<exists>f. find hasImage (readyFrames s) = Some f \<and> f \<in> set (readyFrames s) \<and> hasImage f \<and>
           promises (snd (pingIframe h s)) (fst (pingIframe h s)) = Fulfilled (Plain (Some (Info f))) \<and>
           sent (snd (pingIframe h s)) = sent s \<and>
           pendingCaptures (snd (pingIframe h s)) = pendingCaptures s \<and>
           timers (snd (pingIframe h s)) = timers s"
proof -
  from assms obtain f where f: "find hasImage (readyFrames s) = Some f"
    by (cases "find hasImage (readyFrames s)") (auto simp: find_None_iff)
  then have "f \<in> set (readyFrames s)" "hasImage f"
    by (auto simp: find_Some_iff)
  with f show ?thesis
    by (simp add: pingIframe_def Let_def)
qed

theorem pingIframe_short_circuit_witness:
  "promises
     (snd (pingIframe \<lparr>now = 1000, page_input = None, page_total = None\<rparr>
        (initial_state\<lparr>readyFrames := [\<lparr>hasImage = False, url = ''https://reader/outer''\<rparr>,
           \<lparr>hasImage = True, url = ''https://cdn/page''\<rparr>]\<rparr>)))
     (fst (pingIframe \<lparr>now = 1000, page_input = None, page_total = None\<rparr>
        (initial_state\<lparr>readyFrames := [\<lparr>hasImage = False, url = ''https://reader/outer''\<rparr>,
           \<lparr>hasImage = True, url = ''https://cdn/page''\<rparr>]\<rparr>)))
     = Fulfilled (Plain (Some (Info \<lparr>hasImage = True, url = ''https://cdn/page''\<rparr>)))
   \<and> sent
     (snd (pingIframe \<lparr>now = 1000, page_input = None, page_total = None\<rparr>
        (initial_state\<lparr>readyFrames := [\<lparr>hasImage = False, url = ''https://reader/outer''\<rparr>,
           \<lparr>hasImage = True, url = ''https://cdn/page''\<rparr>]\<rparr>))) = []"
proof -
  let ?s = "initial_state\<lparr>readyFrames := [\<lparr>hasImage = False, url = ''https://reader/outer''\<rparr>,
           \<lparr>hasImage = True, url = ''https://cdn/page''\<rparr>]\<rparr>"
  have "\<exists>f\<in>set (readyFrames ?s). hasImage f"
    by simp
  from pingIframe_short_circuit [OF this, of "\<lparr>now = 1000, page_input = None, page_total = None\<rparr>"]
  show ?thesis
    by (auto simp: initial_state_def)
qed

lemma readyFrames_ready:
  "msg_type m = ''VS_IFRAME_READY'' \<Longrightarrow>
   readyFrames (on_message h m s) = readyFrames s @ [\<lparr>hasImage = msg_hasImage m, url = msg_url m\<rparr>]"
  by (simp add: on_message_ready)

lemma first_ping_frames: "readyFrames (snd (pingIframe h initial_state)) = []"
  by (simp add: pingIframe_def Let_def initial_state_def broadcastToIframes_def)

text \<open>
  C4, as the code has it. A probe is started in a well-formed state with no image-bearing
  announcement on record, under an unused identifier; no matching response arrives, but
  any other messages may (readiness announcements, pongs that report no image) and other
  timers may fire. The timer of the probe does nothing before 5000 ms have passed. When it fires after that, the entry is
  removed and the promise is fulfilled with the first announcement of the list that has
  \<open>hasImage\<close> true; it is rejected with the probe failure message exactly when the
  list has none.
\<close>

theorem ping_timeout_first_announcement:
  assumes wf: "well_formed s0" and un: "unused (ping_id (now h)) s0"
    and none: "find hasImage (readyFrames s0) = None"
    and reg: "pingIframe h s0 = (p, s)"
    and es: "\<forall>e\<in>set es. unrelated (ping_id (now h)) p e"
  shows "(t < now h + 5000 \<longrightarrow> on_timeout p t (run es s) = run es s)
       \<and> (now h + 5000 \<le> t \<longrightarrow>
            promises (on_timeout p t (run es s)) p =
              (case find hasImage (readyFrames (run es s)) of
                 Some ready \<Rightarrow> Fulfilled (Plain (Some (Info ready)))
               | None \<Rightarrow> Rejected probe_failure) \<and>
            pendingCaptures (on_timeout p t (run es s)) (ping_id (now h)) = None)"
proof -
  let ?rid = "ping_id (now h)"
  let ?s = "run es s"
  have r0: "ping_registered ?rid p s"
    and t0: "timers s p = Some (Ping_timer ?rid (now h + 5000))"
    using none reg by (rule pingIframe_registers)+
  have k: "keeps ?rid p s ?s"
    using pingIframe_alone [OF wf un none reg] es by (rule keeps_run)
  have pr: "promises ?s p = Pending"
    and tm: "timers ?s p = Some (Ping_timer ?rid (now h + 5000))"
    using r0 t0 by (simp_all add: keepsD [OF k] ping_registered_def)
  have early: "t < now h + 5000 \<longrightarrow> on_timeout p t ?s = ?s"
    by (simp add: on_timeout_def tm)
  have late: "now h + 5000 \<le> t \<longrightarrow>
      promises (on_timeout p t ?s) p =
        (case find hasImage (readyFrames ?s) of
           Some ready \<Rightarrow> Fulfilled (Plain (Some (Info ready)))
         | None \<Rightarrow> Rejected probe_failure) \<and>
      pendingCaptures (on_timeout p t ?s) ?rid = None"
    using pr by (simp add: on_timeout_def tm Let_def fields split: option.splits)
  from early late show ?thesis by simp
qed

theorem ping_timeout_first_announcement_witness:
  "promises
     (on_timeout 0 6000
        (run [Message \<lparr>now = 1050, page_input = None, page_total = None\<rparr>
                (empty_message\<lparr>msg_type := ''VS_PONG'', msg_requestId := ping_id 1000,
                   msg_url := ''https://reader/outer''\<rparr>),
              Message \<lparr>now = 1100, page_input = None, page_total = None\<rparr>
                (empty_message\<lparr>msg_type := ''VS_IFRAME_READY'', msg_hasImage := True,
                   msg_url := ''https://cdn/page''\<rparr>)]
           (snd (pingIframe \<lparr>now = 1000, page_input = None, page_total = None\<rparr> initial_state))))
     0 = Fulfilled (Plain (Some (Info \<lparr>hasImage = True, url = ''https://cdn/page''\<rparr>)))
   \<and> promises
     (on_timeout 0 6000
        (run [] (snd (pingIframe \<lparr>now = 1000, page_input = None, page_total = None\<rparr> initial_state))))
     0 = Rejected probe_failure"
proof -
  let ?h = "\<lparr>now = 1000, page_input = None, page_total = None\<rparr>"
  let ?m = "empty_message\<lparr>msg_type := ''VS_IFRAME_READY'', msg_hasImage := True,
                   msg_url := ''https://cdn/page''\<rparr>"
  let ?es = "[Message \<lparr>now = 1050, page_input = None, page_total = None\<rparr>
                (empty_message\<lparr>msg_type := ''VS_PONG'', msg_requestId := ping_id 1000,
                   msg_url := ''https://reader/outer''\<rparr>),
              Message \<lparr>now = 1100, page_input = None, page_total = None\<rparr> ?m]"
  have un: "unused (ping_id (now ?h)) initial_state"
    by (rule unused_initial)
  have none: "find hasImage (readyFrames initial_state) = None"
    by (simp add: initial_state_def)
  have es: "\<forall>e\<in>set ?es. unrelated (ping_id (now ?h)) 0 e"
    by (simp add: empty_message_def ping_id_def)
  have es': "\<forall>e\<in>set []. unrelated (ping_id (now ?h)) 0 e"
    by simp
  have f: "readyFrames (run ?es (snd (pingIframe ?h initial_state))) =
      [\<lparr>hasImage = True, url = ''https://cdn/page''\<rparr>]"
    by (simp add: run_def readyFrames_ready on_message_pong first_ping_frames empty_message_def)
  have f': "readyFrames (run [] (snd (pingIframe ?h initial_state))) = []"
    by (simp add: run_def first_ping_frames)
  from ping_timeout_first_announcement [OF well_formed_initial un none first_ping [of ?h] es, of 6000]
    ping_timeout_first_announcement [OF well_formed_initial un none first_ping [of ?h] es', of 6000]
  show ?thesis
    by (simp add: f f')
qed

text \<open>
  Against C4 as the specification words it ("the last known readiness announcement"): two
  image-bearing frames announce themselves while a probe waits, and at the timeout the
  probe resolves with the announcement recorded first, not with the one recorded last.
\<close>

theorem ping_timeout_not_last:
  "promises
     (on_timeout 0 6000
        (run [Message \<lparr>now = 1100, page_input = None, page_total = None\<rparr>
                (empty_message\<lparr>msg_type := ''VS_IFRAME_READY'', msg_hasImage := True,
                   msg_url := ''https://cdn/a''\<rparr>),
              Message \<lparr>now = 1500, page_input = None, page_total = None\<rparr>
                (empty_message\<lparr>msg_type := ''VS_IFRAME_READY'', msg_hasImage := True,
                   msg_url := ''https://cdn/b''\<rparr>)]
           (snd (pingIframe \<lparr>now = 1000, page_input = None, page_total = None\<rparr> initial_state))))
     0 = Fulfilled (Plain (Some (Info \<lparr>hasImage = True, url = ''https://cdn/a''\<rparr>)))
   \<and> last (filter hasImage (readyFrames
        (run [Message \<lparr>now = 1100, page_input = None, page_total = None\<rparr>
                (empty_message\<lparr>msg_type := ''VS_IFRAME_READY'', msg_hasImage := True,
                   msg_url := ''https://cdn/a''\<rparr>),
              Message \<lparr>now = 1500, page_input = None, page_total = None\<rparr>
                (empty_message\<lparr>msg_type := ''VS_IFRAME_READY'', msg_hasImage := True,
                   msg_url := ''https://cdn/b''\<rparr>)]
           (snd (pingIframe \<lparr>now = 1000, page_input = None, page_total = None\<rparr> initial_state)))))
     = \<lparr>hasImage = True, url = ''https://cdn/b''\<rparr>"
proof -
  let ?h = "\<lparr>now = 1000, page_input = None, page_total = None\<rparr>"
  let ?es = "[Message \<lparr>now = 1100, page_input = None, page_total = None\<rparr>
                (empty_message\<lparr>msg_type := ''VS_IFRAME_READY'', msg_hasImage := True,
                   msg_url := ''https://cdn/a''\<rparr>),
              Message \<lparr>now = 1500, page_input = None, page_total = None\<rparr>
                (empty_message\<lparr>msg_type := ''VS_IFRAME_READY'', msg_hasImage := True,
                   msg_url := ''https://cdn/b''\<rparr>)]"
  let ?s = "run ?es (snd (pingIframe ?h initial_state))"
  have f: "readyFrames ?s =
      [\<lparr>hasImage = True, url = ''https://cdn/a''\<rparr>, \<lparr>hasImage = True, url = ''https://cdn/b''\<rparr>]"
    by (simp add: run_def readyFrames_ready first_ping_frames empty_message_def)
  have es: "\<forall>e\<in>set ?es. unrelated (ping_id (now ?h)) 0 e"
    by (simp add: empty_message_def ping_id_def)
  have none: "find hasImage (readyFrames initial_state) = None"
    by (simp add: initial_state_def)
  have k: "keeps (ping_id (now ?h)) 0 (snd (pingIframe ?h initial_state)) ?s"
    using pingIframe_alone [OF well_formed_initial unused_initial none first_ping [of ?h]] es
    by (rule keeps_run)
  have r0: "ping_registered (ping_id (now ?h)) 0 (snd (pingIframe ?h initial_state))"
    and t0: "timers (snd (pingIframe ?h initial_state)) 0 = Some (Ping_timer (ping_id (now ?h)) (now ?h + 5000))"
    using none first_ping [of ?h] by (rule pingIframe_registers)+
  have pr: "promises ?s 0 = Pending"
    and tm: "timers ?s 0 = Some (Ping_timer (ping_id (now ?h)) (now ?h + 5000))"
    using r0 t0 by (simp_all add: keepsD [OF k] ping_registered_def)
  have "promises (on_timeout 0 6000 ?s) 0 =
      Fulfilled (Plain (Some (Info \<lparr>hasImage = True, url = ''https://cdn/a''\<rparr>)))"
    using pr by (simp add: on_timeout_def tm Let_def fields f)
  then show ?thesis
    by (simp add: f)
qed

section \<open>The Frame Agent\<close>

lemma findPageImage_None:
  "findPageImage d = None \<longleftrightarrow>
   (\<forall>i\<in>set (images d). img_id i \<noteq> ''pbk-page'' \<and> \<not> (400 < naturalWidth i \<and> 400 < naturalHeight i))"
proof (cases "find (\<lambda>i. img_id i = ''pbk-page'') (images d)")
  case None
  then have "findPageImage d =
      find (\<lambda>i. 400 < naturalWidth i \<and> 400 < naturalHeight i) (images d)"
    by (simp add: findPageImage_def)
  moreover from None have "\<forall>i\<in>set (images d). img_id i \<noteq> ''pbk-page''"
    by (simp add: find_None_iff)
  ultimately show ?thesis
    by (auto simp: find_None_iff)
next
  case (Some i)
  then have "i \<in> set (images d)" "img_id i = ''pbk-page''"
    by (auto simp: find_Some_iff)
  with Some show ?thesis
    by (auto simp: findPageImage_def)
qed

lemma forwardToChildren_no_response: "filter is_response (forwardToChildren d m) = []"
  by (auto simp: forwardToChildren_def is_response_def filter_empty_conv split: option.splits)

lemma forwardToChildren_reaches: "c \<in> set (iframes d) \<Longrightarrow> To_child c m \<in> set (forwardToChildren d m)"
  by (simp add: forwardToChildren_def)

lemma pong_without_image_ignored:
  "on_message h (empty_message\<lparr>msg_type := ''VS_PONG'', msg_requestId := r, msg_hasImage := False,
     msg_url := u\<rparr>) s = s"
  by (simp add: on_message_pong)

text \<open>
  C6, as the code has it. In a frame where the location policy finds no page image (no
  image with the identifier \<^verbatim>\<open>pbk-page\<close> and none whose natural width and height both
  exceed 400), a capture request is only forwarded to the child frames and gets no
  response. A ping is answered: the frame posts a \<^verbatim>\<open>VS_PONG\<close> with \<open>hasImage\<close> false
  and its URL, and forwards the ping as well. The forwarded copies reach every child frame
  and are no responses, and the Orchestrator's listener leaves its state as it is when it
  receives such a pong.
\<close>

theorem frame_without_image:
  assumes nomatch: "\<forall>i\<in>set (images d). img_id i \<noteq> ''pbk-page'' \<and>
      \<not> (400 < naturalWidth i \<and> 400 < naturalHeight i)"
    and rid: "msg_requestId m \<noteq> []"
  shows "(msg_type m = ''VS_CAPTURE_PAGE'' \<longrightarrow> on_frame_message env d m = forwardToChildren d m)
       \<and> (msg_type m = ''VS_PING'' \<longrightarrow>
            on_frame_message env d m =
              To_parent (empty_message\<lparr>msg_type := ''VS_PONG'', msg_requestId := msg_requestId m,
                msg_hasImage := False, msg_url := currentUrl d\<rparr>) # forwardToChildren d m)
       \<and> filter is_response (forwardToChildren d m) = []
       \<and> (\<forall>c\<in>set (iframes d). To_child c m \<in> set (forwardToChildren d m))
       \<and> on_message h (empty_message\<lparr>msg_type := ''VS_PONG'', msg_requestId := msg_requestId m,
            msg_hasImage := False, msg_url := currentUrl d\<rparr>) s = s"
proof -
  have none: "findPageImage d = None"
    using nomatch by (simp add: findPageImage_None)
  have 1: "msg_type m = ''VS_CAPTURE_PAGE'' \<longrightarrow> on_frame_message env d m = forwardToChildren d m"
    using rid none by (simp add: on_frame_message_def Let_def)
  have 2: "msg_type m = ''VS_PING'' \<longrightarrow>
            on_frame_message env d m =
              To_parent (empty_message\<lparr>msg_type := ''VS_PONG'', msg_requestId := msg_requestId m,
                msg_hasImage := False, msg_url := currentUrl d\<rparr>) # forwardToChildren d m"
    using rid none by (simp add: on_frame_message_def Let_def hasPageImage_def sendToParent_def)
  have 4: "\<forall>c\<in>set (iframes d). To_child c m \<in> set (forwardToChildren d m)"
    by (simp add: forwardToChildren_reaches)
  from 1 2 4 show ?thesis
    by (simp add: forwardToChildren_no_response pong_without_image_ignored)
qed

theorem frame_without_image_witness:
  "on_frame_message \<lparr>load = No_event, toDataURL = (\<lambda>i. Inr ''jpeg'')\<rparr>
     \<lparr>images = [\<lparr>img_id = ''logo'', naturalWidth = 32, naturalHeight = 32, complete = True\<rparr>],
      currentUrl = ''https://reader/outer'', iframes = [1, 2], mosaic_iframes = None\<rparr>
     (empty_message\<lparr>msg_type := ''VS_CAPTURE_PAGE'', msg_requestId := ''capture_1000''\<rparr>)
   = [To_child 1 (empty_message\<lparr>msg_type := ''VS_CAPTURE_PAGE'', msg_requestId := ''capture_1000''\<rparr>),
      To_child 2 (empty_message\<lparr>msg_type := ''VS_CAPTURE_PAGE'', msg_requestId := ''capture_1000''\<rparr>)]"
proof -
  let ?d = "\<lparr>images = [\<lparr>img_id = ''logo'', naturalWidth = 32, naturalHeight = 32, complete = True\<rparr>],
      currentUrl = ''https://reader/outer'', iframes = [1, 2], mosaic_iframes = None\<rparr>"
  let ?m = "empty_message\<lparr>msg_type := ''VS_CAPTURE_PAGE'', msg_requestId := ''capture_1000''\<rparr>"
  have nomatch: "\<forall>i\<in>set (images ?d). img_id i \<noteq> ''pbk-page'' \<and>
      \<not> (400 < naturalWidth i \<and> 400 < naturalHeight i)"
    by simp
  have rid: "msg_requestId ?m \<noteq> []"
    by simp
  from frame_without_image [OF nomatch rid, of "\<lparr>load = No_event, toDataURL = (\<lambda>i. Inr ''jpeg'')\<rparr>"]
  show ?thesis
    by (simp add: forwardToChildren_def)
qed

text \<open>
  Against C6 as the specification words it ("no response to ping requests"): a frame with
  no page image receives a ping and posts a response to its parent.
\<close>

theorem imageless_frame_answers_ping:
  "findPageImage
     \<lparr>images = [\<lparr>img_id = ''logo'', naturalWidth = 32, naturalHeight = 32, complete = True\<rparr>],
      currentUrl = ''https://reader/outer'', iframes = [1], mosaic_iframes = None\<rparr> = None
   \<and> on_frame_message \<lparr>load = No_event, toDataURL = Inr \<circ> img_id\<rparr>
     \<lparr>images = [\<lparr>img_id = ''logo'', naturalWidth = 32, naturalHeight = 32, complete = True\<rparr>],
      currentUrl = ''https://reader/outer'', iframes = [1], mosaic_iframes = None\<rparr>
     (empty_message\<lparr>msg_type := ''VS_PING'', msg_requestId := ''ping_1000''\<rparr>)
   = [To_parent (empty_message\<lparr>msg_type := ''VS_PONG'', msg_requestId := ''ping_1000'',
        msg_hasImage := False, msg_url := ''https://reader/outer''\<rparr>),
      To_child 1 (empty_message\<lparr>msg_type := ''VS_PING'', msg_requestId := ''ping_1000''\<rparr>)]"
  by (simp add: findPageImage_def on_frame_message_def Let_def hasPageImage_def sendToParent_def
      forwardToChildren_def empty_message_def)

lemma captureImage_payload:
  assumes "captureImage env i = Inr imageData"
  shows "\<exists>j d. toDataURL env j = Inr d \<and>
           imageData = \<lparr>data = d, width = naturalWidth j, height = naturalHeight j\<rparr>"
proof -
  have r: "render env j = Inr imageData \<Longrightarrow> ?thesis" for j
    by (auto simp: render_def split: sum.splits)
  show ?thesis
  proof (cases "\<not> complete i \<or> naturalWidth i = 0")
    case True
    with assms obtain j where "load env = Onload j" "render env j = Inr imageData"
      by (auto simp: captureImage_def split: load_event.splits)
    then show ?thesis using r by blast
  next
    case False
    with assms have "render env i = Inr imageData"
      by (auto simp: captureImage_def)
    then show ?thesis using r by blast
  qed
qed

lemma frame_capture_response:
  assumes "msg_type req = ''VS_CAPTURE_PAGE''" and "msg_requestId req \<noteq> []"
    and "findPageImage d = Some i" and "captureImage env i = Inr imageData"
  shows "on_frame_message env d req =
           To_parent (empty_message\<lparr>msg_type := ''VS_PAGE_CAPTURED'',
             msg_requestId := msg_requestId req, msg_success := True,
             msg_data := Some (Image imageData)\<rparr>) # forwardToChildren d req"
  using assms by (simp add: on_frame_message_def Let_def sendToParent_def)

text \<open>
  C9. A frame that finds its page image and rasterizes it answers a capture request with a
  \<^verbatim>\<open>VS_PAGE_CAPTURED\<close> message whose payload is the encoded image with the natural width
  and height and nothing else. When that response reaches the Orchestrator while the
  request is pending, the promise of the capture call is fulfilled with the payload
  stamped with \<^verbatim>\<open>Date.now()\<close> and with the page number read from the host page at that
  moment. The same stamping happens for every successful response that carries an object.
\<close>

theorem capture_result_stamped:
  assumes reg: "capture_registered requestId p s" and ne: "requestId \<noteq> []"
    and req: "msg_type req = ''VS_CAPTURE_PAGE''" "msg_requestId req = requestId"
    and img: "findPageImage d = Some i" and cap: "captureImage env i = Inr imageData"
  shows "(\<exists>j e. toDataURL env j = Inr e \<and>
            imageData = \<lparr>data = e, width = naturalWidth j, height = naturalHeight j\<rparr>)
       \<and> on_frame_message env d req =
           To_parent (empty_message\<lparr>msg_type := ''VS_PAGE_CAPTURED'', msg_requestId := requestId,
             msg_success := True, msg_data := Some (Image imageData)\<rparr>) # forwardToChildren d req
       \<and> promises
           (on_message h (empty_message\<lparr>msg_type := ''VS_PAGE_CAPTURED'', msg_requestId := requestId,
              msg_success := True, msg_data := Some (Image imageData)\<rparr>) s) p =
           Fulfilled (Stamped \<lparr>content = Image imageData, timestamp = now h,
             pageNumber = (case page_input h of None \<Rightarrow> 1 | Some n \<Rightarrow> if n = 0 then 1 else n)\<rparr>)
       \<and> (\<forall>m obj. msg_type m = ''VS_PAGE_CAPTURED'' \<and> msg_requestId m = requestId \<and> msg_success m \<and>
              msg_data m = Some obj \<longrightarrow>
            promises (on_message h m s) p =
              Fulfilled (Stamped \<lparr>content = obj, timestamp = now h,
                pageNumber = current (getCurrentPageInfo h)\<rparr>))"
proof -
  let ?m = "empty_message\<lparr>msg_type := ''VS_PAGE_CAPTURED'', msg_requestId := requestId,
             msg_success := True, msg_data := Some (Image imageData)\<rparr>"
  have 1: "\<exists>j e. toDataURL env j = Inr e \<and>
            imageData = \<lparr>data = e, width = naturalWidth j, height = naturalHeight j\<rparr>"
    using cap by (rule captureImage_payload)
  have 2: "on_frame_message env d req = To_parent ?m # forwardToChildren d req"
    using frame_capture_response [OF req(1) _ img cap] req(2) ne by simp
  have all: "promises (on_message h m s) p =
              Fulfilled (Stamped \<lparr>content = obj, timestamp = now h,
                pageNumber = current (getCurrentPageInfo h)\<rparr>)"
    if "msg_type m = ''VS_PAGE_CAPTURED'' \<and> msg_requestId m = requestId \<and> msg_success m \<and>
        msg_data m = Some obj" for m obj
    using that capture_response_success [OF reg ne, of m obj h] by simp
  have "promises (on_message h ?m s) p =
      Fulfilled (Stamped \<lparr>content = Image imageData, timestamp = now h,
        pageNumber = current (getCurrentPageInfo h)\<rparr>)"
    by (rule all) simp
  then have 3: "promises (on_message h ?m s) p =
      Fulfilled (Stamped \<lparr>content = Image imageData, timestamp = now h,
        pageNumber = (case page_input h of None \<Rightarrow> 1 | Some n \<Rightarrow> if n = 0 then 1 else n)\<rparr>)"
    by (simp add: getCurrentPageInfo_def)
  from 1 2 3 all show ?thesis
    by blast
qed

theorem capture_result_stamped_witness:
  "promises
     (on_message \<lparr>now = 1400, page_input = Some 7, page_total = Some 300\<rparr>
        (empty_message\<lparr>msg_type := ''VS_PAGE_CAPTURED'', msg_requestId := capture_id 1000,
           msg_success := True,
           msg_data := Some (Image \<lparr>data = ''jpeg'', width = 800, height = 1000\<rparr>)\<rparr>)
        (snd (captureCurrentPage \<lparr>now = 1000, page_input = Some 6, page_total = Some 300\<rparr> initial_state)))
     0 = Fulfilled (Stamped \<lparr>content = Image \<lparr>data = ''jpeg'', width = 800, height = 1000\<rparr>,
           timestamp = 1400, pageNumber = 7\<rparr>)"
proof -
  let ?h = "\<lparr>now = 1000, page_input = Some 6, page_total = Some 300\<rparr>"
  let ?env = "\<lparr>load = No_event, toDataURL = (\<lambda>i. Inr ''jpeg'')\<rparr>"
  let ?i = "\<lparr>img_id = ''pbk-page'', naturalWidth = 800, naturalHeight = 1000, complete = True\<rparr>"
  let ?d = "\<lparr>images = [?i], currentUrl = ''https://cdn/page'', iframes = [], mosaic_iframes = None\<rparr>"
  let ?req = "empty_message\<lparr>msg_type := ''VS_CAPTURE_PAGE'', msg_requestId := capture_id 1000\<rparr>"
  have c: "capture_registered (capture_id 1000) 0 (snd (captureCurrentPage ?h initial_state))"
    using captureCurrentPage_registers(1) [OF first_capture [of ?h]] by simp
  have req: "msg_type ?req = ''VS_CAPTURE_PAGE''" "msg_requestId ?req = capture_id 1000"
    by simp_all
  have img: "findPageImage ?d = Some ?i"
    by (simp add: findPageImage_def)
  have cap: "captureImage ?env ?i = Inr \<lparr>data = ''jpeg'', width = 800, height = 1000\<rparr>"
    by (simp add: captureImage_def render_def)
  from capture_result_stamped [OF c capture_id_nonempty req img cap,
      of "\<lparr>now = 1400, page_input = Some 7, page_total = Some 300\<rparr>"]
  show ?thesis by simp
qed

section \<open>The pagination capture loop\<close>

lemma updateStatus_pages [simp]: "capturedPages (updateStatus m k s) = capturedPages s"
  by (simp add: updateStatus_def)

lemma apply_action_pages:
  "\<not> runs_on a \<Longrightarrow> length (capturedPages (apply_action a s)) \<le> length (capturedPages s)"
  by (cases a) (simp_all add: generatePDF_def start_activation_def Let_def split: option.splits)

lemma user_actions_pages:
  "undisturbed as \<Longrightarrow> length (capturedPages (user_actions as s)) \<le> length (capturedPages s)"
proof (induction as arbitrary: s)
  case Nil
  then show ?case by (simp add: user_actions_def)
next
  case (Cons a as)
  then have a: "\<not> runs_on a" and as: "undisturbed as"
    by (simp_all add: undisturbed_def)
  have "length (capturedPages (user_actions as (apply_action a s))) \<le> length (capturedPages (apply_action a s))"
    using as by (rule Cons.IH)
  also have "\<dots> \<le> length (capturedPages s)"
    using a by (rule apply_action_pages)
  finally show ?case by (simp add: user_actions_def)
qed

lemma catch_block_pages:
  assumes "catch_block it n e s = Break (s', n') \<or> catch_block it n e s = Continue (s', n')"
    and calm: "undisturbed (during_advance it)"
  shows "length (capturedPages s') \<le> length (capturedPages s)"
proof (cases "e = ''Last page''")
  case True
  with assms show ?thesis by (auto simp: catch_block_def)
next
  case False
  show ?thesis
  proof (cases "goToNextPage (recovery it)")
    case (Inl a)
    with False assms show ?thesis by (auto simp: catch_block_def Let_def)
  next
    case (Inr b)
    with False assms have "s' = user_actions (during_advance it) (updateStatus (Error_on_page n e) Error_status s)"
      by (auto simp: catch_block_def Let_def)
    then show ?thesis
      using user_actions_pages [OF calm, of "updateStatus (Error_on_page n e) Error_status s"]
      by simp
  qed
qed

lemma loop_body_bound:
  assumes lt: "int c < L"
    and body: "loop_body it L c n s = Break (s', c', n') \<or> loop_body it L c n s = Continue (s', c', n')"
    and calm: "undisturbed (during_capture it)" "undisturbed (during_advance it)"
  shows "length (capturedPages s') + c \<le> length (capturedPages s) + c' \<and> int c' \<le> L"
proof -
  let ?s1 = "user_actions (during_capture it) s"
  have s1: "length (capturedPages ?s1) \<le> length (capturedPages s)"
    using calm(1) by (rule user_actions_pages)
  show ?thesis
  proof (cases "capture it")
    case (Inl e)
    from body obtain n1 where "catch_block it n e ?s1 = Break (s', n1) \<or> catch_block it n e ?s1 = Continue (s', n1)"
      and c: "c' = c"
      by (auto simp: loop_body_def Let_def Inl split: flow.splits prod.splits)
    from catch_block_pages [OF this(1) calm(2)] s1 c lt show ?thesis by simp
  next
    case (Inr pageData)
    let ?s3 = "updateStatus (Captured_page n (length (capturedPages ?s1 @ [pageData]))) Info_status
                 (?s1\<lparr>capturedPages := capturedPages ?s1 @ [pageData]\<rparr>)"
    have s3: "length (capturedPages ?s3) \<le> Suc (length (capturedPages s))"
      using s1 by simp
    show ?thesis
    proof (cases "int (Suc c) \<ge> L")
      case True
      with body have "s' = updateStatus (Done_captured (length (capturedPages ?s3))) Success_status ?s3"
        and "c' = Suc c"
        by (auto simp: loop_body_def Let_def Inr)
      with s3 lt show ?thesis by simp
    next
      case False
      show ?thesis
      proof (cases "goToNextPage (advance it)")
        case (Inr u)
        with False body have "s' = user_actions (during_advance it) ?s3" and c: "c' = Suc c"
          by (auto simp: loop_body_def Let_def \<open>capture it = Inr pageData\<close>)
        then have "length (capturedPages s') \<le> length (capturedPages ?s3)"
          using user_actions_pages [OF calm(2), of ?s3] by simp
        with s3 c False show ?thesis by simp
      next
        case (Inl e)
        with False body obtain n1 where
          "catch_block it n e ?s3 = Break (s', n1) \<or> catch_block it n e ?s3 = Continue (s', n1)"
          and c: "c' = Suc c"
          by (auto simp: loop_body_def Let_def \<open>capture it = Inr pageData\<close> split: flow.splits prod.splits)
        from catch_block_pages [OF this(1) calm(2)] s3 c False show ?thesis by simp
      qed
    qed
  qed
qed

lemma capture_loop_bound:
  "capture_loop its L c n s = Some s' \<Longrightarrow>
   list_all (\<lambda>it. undisturbed (during_capture it) \<and> undisturbed (during_advance it)) its \<Longrightarrow>
   int (length (capturedPages s')) \<le> int (length (capturedPages s)) + max 0 (L - int c)"
proof (induction its arbitrary: c n s)
  case Nil
  then show ?case by (auto split: if_splits)
next
  case (Cons it its)
  from Cons.prems(2) have calm: "undisturbed (during_capture it)" "undisturbed (during_advance it)"
    and rest: "list_all (\<lambda>it. undisturbed (during_capture it) \<and> undisturbed (during_advance it)) its"
    by simp_all
  show ?case
  proof (cases "isRunning s \<and> int c < L")
    case False
    with Cons.prems(1) show ?thesis by auto
  next
    case True
    then have lt: "int c < L" by simp
    show ?thesis
    proof (cases "loop_body it L c n s")
      case (Break x)
      obtain s1 c1 n1 where x: "x = (s1, c1, n1)" by (cases x)
      with Break True Cons.prems(1) have "s' = s1" by simp
      moreover have "length (capturedPages s1) + c \<le> length (capturedPages s) + c1 \<and> int c1 \<le> L"
        using loop_body_bound [OF lt _ calm, of n s s1 c1 n1] Break x by simp
      ultimately show ?thesis by (auto simp: max_def)
    next
      case (Continue x)
      obtain s1 c1 n1 where x: "x = (s1, c1, n1)" by (cases x)
      with Continue True Cons.prems(1) have "capture_loop its L c1 n1 s1 = Some s'" by simp
      from Cons.IH [OF this rest]
      have "int (length (capturedPages s')) \<le> int (length (capturedPages s1)) + max 0 (L - int c1)" .
      moreover have "length (capturedPages s1) + c \<le> length (capturedPages s) + c1 \<and> int c1 \<le> L"
        using loop_body_bound [OF lt _ calm, of n s s1 c1 n1] Continue x by simp
      ultimately show ?thesis by (auto simp: max_def)
    qed
  qed
qed

text \<open>
  A call of \<^verbatim>\<open>startCapture\<close> that is the only one to run between its start and its
  end, started on an empty session with a positive page limit, leaves at most
  \<^verbatim>\<open>pageLimit\<close> pages in the session, whatever the captures, the Next button and the
  user (stop, clear, further clicks) do on the way.
\<close>

lemma undisturbed_run_bound:
  assumes fin: "startCapture r s = Some s'"
    and empty: "capturedPages s = []"
    and positive: "0 < page_limit (limit_input r)"
    and calm: "undisturbed_run r"
  shows "int (length (capturedPages s')) \<le> page_limit (limit_input r)"
proof (cases "isRunning s")
  case True
  with fin have "s' = s" by (simp add: startCapture_def)
  with empty positive show ?thesis by simp
next
  case False
  let ?L = "page_limit (limit_input r)"
  let ?s2 = "user_actions (during_ping r) (updateStatus Checking_connection Info_status (s\<lparr>isRunning := True\<rparr>))"
  from calm have c1: "undisturbed (during_ping r)"
    and c2: "list_all (\<lambda>it. undisturbed (during_capture it) \<and> undisturbed (during_advance it)) (iterations r)"
    by (simp_all add: undisturbed_run_def)
  have s2: "capturedPages ?s2 = []"
    using user_actions_pages [OF c1, of "updateStatus Checking_connection Info_status (s\<lparr>isRunning := True\<rparr>)"] empty
    by simp
  show ?thesis
  proof (cases "ping r")
    case (Inl e)
    with False fin have "s' = (updateStatus (Error_message e) Error_status ?s2)\<lparr>isRunning := False\<rparr>"
      by (simp add: startCapture_def Let_def)
    with s2 positive show ?thesis by simp
  next
    case (Inr info)
    let ?n = "current (getCurrentPageInfo (start_host r))"
    from Inr False fin obtain s3 where
      loop: "capture_loop (iterations r) ?L 0 ?n (updateStatus (Starting_from ?n) Info_status ?s2) = Some s3"
      and s': "s' = s3\<lparr>isRunning := False\<rparr>"
      by (auto simp: startCapture_def Let_def)
    from capture_loop_bound [OF loop c2] s2 positive s' show ?thesis by simp
  qed
qed

text \<open>Once the pages captured in the run have reached the limit, the loop takes no further pass.\<close>

lemma capture_loop_stops:
  "pageLimit \<le> int captured \<Longrightarrow> capture_loop its pageLimit captured pageNum s = Some s"
  by (cases its) simp_all

text \<open>One pass of the loop, written in one piece and stretch by stretch, is the same.\<close>

lemma resume_loop_body:
  assumes "run_at a = Awaits_captureCurrentPage"
  shows "resume (Capture_settled r next retry) a s =
     (case loop_body \<lparr>during_capture = [], capture = r, advance = next, recovery = retry,
             during_advance = []\<rparr> (run_pageLimit a) (run_captured a) (run_pageNum a) s of
        Break (s', c, n) \<Rightarrow> finish (a\<lparr>run_captured := c\<rparr>) s'
      | Continue (s', c, n) \<Rightarrow> (a\<lparr>run_captured := c, run_at := Awaits_goToNextPage\<rparr>, s'))"
  using assms
  by (auto simp: loop_body_def catch_block_def after_throw_def user_actions_def Let_def finish_def
      split: sum.splits)

text \<open>
  The page limit is taken from the input as it is: a negative number in the field is the
  limit of the run, and the loop ends at once, with no page and yet above its limit.
\<close>

lemma negative_limit_kept:
  "map_option capturedPages
     (startCapture
        \<lparr>limit_input = Some (- 5),
         start_host = \<lparr>now = 1000, page_input = Some 7, page_total = Some 300\<rparr>,
         during_ping = [],
         ping = Inr (Plain (Some (Info \<lparr>hasImage = True, url = ''https://cdn/page''\<rparr>))),
         iterations = []\<rparr>
        initial_state) = Some []
   \<and> page_limit (Some (- 5)) = - 5"
  by (simp add: startCapture_def user_actions_def initial_state_def Let_def page_limit_def
      getCurrentPageInfo_def updateStatus_def)

text \<open>
  C1. The claim fails when two calls of \<^verbatim>\<open>startCapture\<close> overlap. With 1 in the
  page-limit field the action button is clicked three times while the probe of the first
  call is awaited: the first click starts a call, the second lowers the flag, and the
  third, finding the flag down and the session empty, starts a second call, which raises
  the flag again. The first call then passes the test of its loop, captures a page,
  appends it and ends. The second call captures a page as well and appends it: it comes
  to its end with two pages in the session, and its page limit is 1.
\<close>

theorem second_run_exceeds_limit:
  "map_option capturedPages
     (action_click
        \<lparr>limit_input = Some 1,
         start_host = \<lparr>now = 3000, page_input = Some 7, page_total = Some 300\<rparr>,
         during_ping =
           [Resume 0 (Ping_settled (Inr (Plain (Some (Info \<lparr>hasImage = True, url = ''https://cdn/page''\<rparr>)))))],
         ping = Inr (Plain (Some (Info \<lparr>hasImage = True, url = ''https://cdn/page''\<rparr>))),
         iterations =
           [\<lparr>during_capture =
               [Resume 0 Sleep_over,
                Resume 0 (Capture_settled
                  (Inr \<lparr>content = Image \<lparr>data = ''first'', width = 800, height = 1000\<rparr>,
                        timestamp = 3600, pageNumber = 7\<rparr>) None None)],
             capture = Inr \<lparr>content = Image \<lparr>data = ''second'', width = 800, height = 1000\<rparr>,
                           timestamp = 3700, pageNumber = 7\<rparr>,
             advance = None, recovery = None, during_advance = []\<rparr>]\<rparr>
        None
        (user_actions
           [Click (Some 1) \<lparr>now = 1000, page_input = Some 7, page_total = Some 300\<rparr> None,
            Click (Some 1) \<lparr>now = 2000, page_input = Some 7, page_total = Some 300\<rparr> None]
           initial_state))
   = Some [\<lparr>content = Image \<lparr>data = ''first'', width = 800, height = 1000\<rparr>,
            timestamp = 3600, pageNumber = 7\<rparr>,
           \<lparr>content = Image \<lparr>data = ''second'', width = 800, height = 1000\<rparr>,
            timestamp = 3700, pageNumber = 7\<rparr>]
   \<and> page_limit (Some 1) = 1"
  by (simp add: action_click_def startCapture_def user_actions_def start_activation_def
      initial_state_def Let_def page_limit_def getCurrentPageInfo_def updateStatus_def
      loop_body_def loop_head_def finish_def goToNextPage_def)

text \<open>
  C5, as the code has it. A pass of the loop captures a page without reaching the page
  limit and then finds the Next button. If the button is disabled (by its property or by
  \<^verbatim>\<open>aria-disabled\<close>), the loop ends with the status "Done!" of kind success and with
  the pages captured so far. If the button is absent, at the advance and at the retry,
  the loop ends with the same pages but with the status "Error on page N: No Next button"
  of kind error.
\<close>

theorem advance_control_end:
  assumes running: "isRunning s" and below: "int (Suc captured) < pageLimit"
    and cap: "capture it = Inr pageData"
    and s1: "s1 = user_actions (during_capture it) s"
  shows "((\<exists>b. advance it = Some b \<and> (disabled b \<or> aria_disabled b = Some ''true'')) \<longrightarrow>
            capture_loop (it # its) pageLimit captured pageNum s =
              Some (updateStatus (Done_captured (Suc (length (capturedPages s1)))) Success_status
                      (s1\<lparr>capturedPages := capturedPages s1 @ [pageData]\<rparr>)))
       \<and> (advance it = None \<and> recovery it = None \<longrightarrow>
            capture_loop (it # its) pageLimit captured pageNum s =
              Some (updateStatus (Error_on_page pageNum ''No Next button'') Error_status
                      (s1\<lparr>capturedPages := capturedPages s1 @ [pageData]\<rparr>)))"
proof -
  have lt: "int captured < pageLimit" and nlim: "\<not> pageLimit \<le> int (Suc captured)"
    using below by simp_all
  have 1: "capture_loop (it # its) pageLimit captured pageNum s =
              Some (updateStatus (Done_captured (Suc (length (capturedPages s1)))) Success_status
                      (s1\<lparr>capturedPages := capturedPages s1 @ [pageData]\<rparr>))"
    if "advance it = Some b" and "disabled b \<or> aria_disabled b = Some ''true''" for b
  proof -
    have "goToNextPage (advance it) = Inl ''Last page''"
      using that by (auto simp: goToNextPage_def)
    then show ?thesis
      using running lt nlim cap s1
      by (simp add: loop_body_def catch_block_def Let_def updateStatus_def)
  qed
  have 2: "capture_loop (it # its) pageLimit captured pageNum s =
              Some (updateStatus (Error_on_page pageNum ''No Next button'') Error_status
                      (s1\<lparr>capturedPages := capturedPages s1 @ [pageData]\<rparr>))"
    if "advance it = None" and "recovery it = None"
  proof -
    have "goToNextPage (advance it) = Inl ''No Next button''"
      and "goToNextPage (recovery it) = Inl ''No Next button''"
      using that by (simp_all add: goToNextPage_def)
    then show ?thesis
      using running lt nlim cap s1
      by (simp add: loop_body_def catch_block_def Let_def updateStatus_def)
  qed
  from 1 2 show ?thesis by blast
qed

theorem advance_control_end_witness:
  "map_option status
     (capture_loop
        [\<lparr>during_capture = [],
          capture = Inr \<lparr>content = Image \<lparr>data = ''p7'', width = 800, height = 1000\<rparr>,
                        timestamp = 1600, pageNumber = 7\<rparr>,
          advance = Some \<lparr>disabled = False, aria_disabled = Some ''true''\<rparr>,
          recovery = Some \<lparr>disabled = False, aria_disabled = Some ''true''\<rparr>,
          during_advance = []\<rparr>]
        10 0 7 (initial_state\<lparr>isRunning := True\<rparr>))
   = Some (Some (Done_captured 1, Success_status))"
proof -
  let ?it = "\<lparr>during_capture = [],
          capture = Inr \<lparr>content = Image \<lparr>data = ''p7'', width = 800, height = 1000\<rparr>,
                        timestamp = 1600, pageNumber = 7\<rparr>,
          advance = Some \<lparr>disabled = False, aria_disabled = Some ''true''\<rparr>,
          recovery = Some \<lparr>disabled = False, aria_disabled = Some ''true''\<rparr>,
          during_advance = []\<rparr>"
  let ?s = "initial_state\<lparr>isRunning := True\<rparr>"
  have running: "isRunning ?s" by simp
  have below: "int (Suc 0) < 10" by simp
  have cap: "capture ?it = Inr \<lparr>content = Image \<lparr>data = ''p7'', width = 800, height = 1000\<rparr>,
                        timestamp = 1600, pageNumber = 7\<rparr>"
    by simp
  have s1: "?s = user_actions (during_capture ?it) ?s"
    by (simp add: user_actions_def)
  have b: "\<exists>b. advance ?it = Some b \<and> (disabled b \<or> aria_disabled b = Some ''true'')"
    by simp
  from advance_control_end [OF running below cap s1, of "[]" 7] b
  have "capture_loop [?it] 10 0 7 ?s =
      Some (updateStatus (Done_captured (Suc (length (capturedPages ?s)))) Success_status
              (?s\<lparr>capturedPages := capturedPages ?s @ [\<lparr>content = Image \<lparr>data = ''p7'', width = 800, height = 1000\<rparr>,
                        timestamp = 1600, pageNumber = 7\<rparr>]\<rparr>))"
    by blast
  then show ?thesis
    by (simp add: updateStatus_def initial_state_def)
qed

text \<open>
  Against C5 as the specification words it ("for both the disabled case and the absent
  case"): the Next button is missing after the first capture of a run with page limit 10,
  and the run ends with one page in the session and with an error status, not with "Done!".
\<close>

theorem absent_control_is_error:
  "map_option status
     (startCapture
        \<lparr>limit_input = Some 10,
         start_host = \<lparr>now = 1000, page_input = Some 7, page_total = Some 300\<rparr>,
         during_ping = [],
         ping = Inr (Plain (Some (Info \<lparr>hasImage = True, url = ''https://cdn/page''\<rparr>))),
         iterations =
           [\<lparr>during_capture = [],
             capture = Inr \<lparr>content = Image \<lparr>data = ''p7'', width = 800, height = 1000\<rparr>,
                           timestamp = 1600, pageNumber = 7\<rparr>,
             advance = None, recovery = None, during_advance = []\<rparr>]\<rparr>
        initial_state)
   = Some (Some (Error_on_page 7 ''No Next button'', Error_status))
   \<and> map_option capturedPages
     (startCapture
        \<lparr>limit_input = Some 10,
         start_host = \<lparr>now = 1000, page_input = Some 7, page_total = Some 300\<rparr>,
         during_ping = [],
         ping = Inr (Plain (Some (Info \<lparr>hasImage = True, url = ''https://cdn/page''\<rparr>))),
         iterations =
           [\<lparr>during_capture = [],
             capture = Inr \<lparr>content = Image \<lparr>data = ''p7'', width = 800, height = 1000\<rparr>,
                           timestamp = 1600, pageNumber = 7\<rparr>,
             advance = None, recovery = None, during_advance = []\<rparr>]\<rparr>
        initial_state)
   = Some [\<lparr>content = Image \<lparr>data = ''p7'', width = 800, height = 1000\<rparr>,
            timestamp = 1600, pageNumber = 7\<rparr>]"
  by (simp add: startCapture_def Let_def initial_state_def page_limit_def getCurrentPageInfo_def
      updateStatus_def user_actions_def loop_body_def catch_block_def goToNextPage_def)

end
